theory Spec2Isabelle
  imports Main "HOL-Library.Sublist"
begin

section \<open>PRD Ticket Assistant: the request handler of \<^verbatim>\<open>app.py\<close>\<close>

text \<open>
  The program is one Flask module. At import time it reads the credential and builds the global
  \<^verbatim>\<open>model\<close> (or \<^verbatim>\<open>None\<close>); the route \<^verbatim>\<open>index\<close> composes a prompt from the
  submitted form, and \<^verbatim>\<open>get_ai_analysis\<close> calls the model, cleans the reply and decodes it
  as JSON.

  Text. A Python \<^verbatim>\<open>str\<close> is modelled by the bytes of its UTF-8 encoding, one \<^typ>\<open>char\<close> per
  byte (a lone surrogate is encoded like any other code point). Concatenation, emptiness and the
  search for an ASCII pattern are the same on code points and on these bytes.

  Libraries. The standard decoder \<^verbatim>\<open>json.loads\<close> is modelled in full (section 3). The Markdown
  renderer, the wording of the decoder's exceptions and \<^verbatim>\<open>repr\<close> are parameters (record
  \<open>libs\<close>): no theorem depends on what they return. Of the rendering of the Jinja template the
  model keeps whether it raises; the page is represented by the arguments it is rendered from.
\<close>

section \<open>1. Exceptions, form fields, text primitives\<close>

text \<open>
  The exceptions that leave the handler. \<open>BadRequestKeyError k\<close> is what Werkzeug raises for
  \<^verbatim>\<open>request.form[k]\<close> when the field \<open>k\<close> was not submitted; \<open>TypeError\<close> and
  \<open>AttributeError\<close> are Python's for an operation the value's type does not have;
  \<open>KeyError\<close> for a missing dictionary key.
\<close>

datatype exn =
    BadRequestKeyError string
  | TypeError
  | AttributeError
  | KeyError string

text \<open>
  \<^verbatim>\<open>request.form\<close> is a multi-dictionary built from the submitted pairs in order;
  \<^verbatim>\<open>form[k]\<close> returns the first value of \<open>k\<close>.
\<close>

type_synonym form = "(string \<times> string) list"

definition form_contains :: "form \<Rightarrow> string \<Rightarrow> bool" where
  "form_contains f k = (map_of f k \<noteq> None)"

definition form_getitem :: "form \<Rightarrow> string \<Rightarrow> exn + string" where
  "form_getitem f k = (case map_of f k of None \<Rightarrow> Inl (BadRequestKeyError k) | Some v \<Rightarrow> Inr v)"

text \<open>The decimal text of a natural number: what an f-string gives for the loop counter.\<close>

definition digit_char :: "nat \<Rightarrow> char" where
  "digit_char d = char_of (48 + d)"

fun str_nat :: "nat \<Rightarrow> string" where
  "str_nat n = (if n < 10 then [digit_char n] else str_nat (n div 10) @ [digit_char (n mod 10)])"

declare str_nat.simps [simp del]

text \<open>The names of the fields \<^verbatim>\<open>question_i\<close> and \<^verbatim>\<open>answer_i\<close>.\<close>

definition question_key :: "nat \<Rightarrow> string" where
  "question_key i = ''question_'' @ str_nat i"

definition answer_key :: "nat \<Rightarrow> string" where
  "answer_key i = ''answer_'' @ str_nat i"

lemma digit_char_inj: "a < 10 \<Longrightarrow> b < 10 \<Longrightarrow> digit_char a = digit_char b \<Longrightarrow> a = b"
proof -
  assume a: "a < 10" and b: "b < 10" and e: "digit_char a = digit_char b"
  from e have "(of_char (char_of (48 + a)) :: nat) = of_char (char_of (48 + b))"
    by (simp add: digit_char_def)
  with a b show "a = b" by (simp add: of_char_of)
qed

lemma str_nat_not_Nil: "str_nat n \<noteq> []"
  by (subst str_nat.simps) simp

lemma str_nat_inj: "str_nat m = str_nat n \<Longrightarrow> m = n"
proof (induction m arbitrary: n rule: str_nat.induct)
  case (1 m)
  show ?case
  proof (cases "m < 10")
    case m: True
    show ?thesis
    proof (cases "n < 10")
      case True
      with m "1.prems" show ?thesis
        by (subst (asm) str_nat.simps, subst (asm) (2) str_nat.simps) (simp add: digit_char_inj)
    next
      case False
      with m "1.prems" str_nat_not_Nil [of "n div 10"] show ?thesis
        by (subst (asm) str_nat.simps, subst (asm) (2) str_nat.simps) simp
    qed
  next
    case m: False
    show ?thesis
    proof (cases "n < 10")
      case True
      with m "1.prems" str_nat_not_Nil [of "m div 10"] show ?thesis
        by (subst (asm) str_nat.simps, subst (asm) (2) str_nat.simps) simp
    next
      case False
      from m have sm: "str_nat m = str_nat (m div 10) @ [digit_char (m mod 10)]"
        by (subst str_nat.simps) simp
      from False have sn: "str_nat n = str_nat (n div 10) @ [digit_char (n mod 10)]"
        by (subst str_nat.simps) simp
      from "1.prems" sm sn have e1: "str_nat (m div 10) = str_nat (n div 10)"
        and e2: "digit_char (m mod 10) = digit_char (n mod 10)" by simp_all
      from "1.IH" [OF m e1] have d: "m div 10 = n div 10" .
      from e2 have r: "m mod 10 = n mod 10" by (intro digit_char_inj) simp_all
      from d r show ?thesis by (metis div_mult_mod_eq)
    qed
  qed
qed

lemma question_key_inj: "inj question_key"
  by (rule injI) (simp add: question_key_def str_nat_inj)

lemma finite_question_indices: "finite {j. form_contains f (question_key j)}"
proof -
  have "{j. form_contains f (question_key j)} = question_key -` (fst ` set f)"
    by (auto simp: form_contains_def map_of_eq_None_iff)
  then show ?thesis by (simp add: finite_vimageI question_key_inj)
qed

text \<open>
  \<^verbatim>\<open>sub in s\<close> on two strings: \<open>sub\<close> occurs in \<open>s\<close> as a contiguous block.
\<close>

fun py_str_in :: "string \<Rightarrow> string \<Rightarrow> bool" where
  "py_str_in sub [] = (sub = [])"
| "py_str_in sub (c # cs) = (prefix sub (c # cs) \<or> py_str_in sub cs)"

text \<open>
  The code points of a text: a byte outside \<open>0x80..0xBF\<close> starts a code point, the
  continuation bytes after it belong to it.
\<close>

definition is_continuation :: "char \<Rightarrow> bool" where
  "is_continuation c = (0x80 \<le> (of_char c :: nat) \<and> (of_char c :: nat) \<le> 0xBF)"

function utf8_chars :: "string \<Rightarrow> string list" where
  "utf8_chars [] = []"
| "utf8_chars (c # cs) = (c # takeWhile is_continuation cs) # utf8_chars (dropWhile is_continuation cs)"
  by pat_completeness auto
termination
  by (relation "measure length") (auto intro: le_imp_less_Suc length_dropWhile_le)

text \<open>
  \<^verbatim>\<open>s.replace(old, new)\<close>: every occurrence of \<open>old\<close>, found from the left and without
  overlap, becomes \<open>new\<close>. With an empty \<open>old\<close>, \<open>new\<close> goes before every code point and at the
  end.
\<close>

function py_replace :: "string \<Rightarrow> string \<Rightarrow> string \<Rightarrow> string" where
  "py_replace old new s =
     (if old = [] then new @ concat (map (\<lambda>cp. cp @ new) (utf8_chars s))
      else if s = [] then []
      else if prefix old s then new @ py_replace old new (drop (length old) s)
      else hd s # py_replace old new (tl s))"
  by pat_completeness auto
termination
  by (relation "measure (\<lambda>(old, new, s). length s)") auto

declare py_replace.simps [simp del]

text \<open>
  \<^verbatim>\<open>s.strip()\<close> removes, at both ends, the code points for which \<^verbatim>\<open>str.isspace\<close> holds:
  U+0009..U+000D, U+001C..U+0020, U+0085, U+00A0, U+1680, U+2000..U+200A, U+2028, U+2029, U+202F,
  U+205F and U+3000, listed here by their encodings.
\<close>

definition py_whitespace :: "string list" where
  "py_whitespace =
     [[CHR 0x09], [CHR 0x0A], [CHR 0x0B], [CHR 0x0C], [CHR 0x0D],
      [CHR 0x1C], [CHR 0x1D], [CHR 0x1E], [CHR 0x1F], [CHR 0x20],
      [CHR 0xC2, CHR 0x85], [CHR 0xC2, CHR 0xA0], [CHR 0xE1, CHR 0x9A, CHR 0x80],
      [CHR 0xE2, CHR 0x80, CHR 0x80], [CHR 0xE2, CHR 0x80, CHR 0x81],
      [CHR 0xE2, CHR 0x80, CHR 0x82], [CHR 0xE2, CHR 0x80, CHR 0x83],
      [CHR 0xE2, CHR 0x80, CHR 0x84], [CHR 0xE2, CHR 0x80, CHR 0x85],
      [CHR 0xE2, CHR 0x80, CHR 0x86], [CHR 0xE2, CHR 0x80, CHR 0x87],
      [CHR 0xE2, CHR 0x80, CHR 0x88], [CHR 0xE2, CHR 0x80, CHR 0x89],
      [CHR 0xE2, CHR 0x80, CHR 0x8A], [CHR 0xE2, CHR 0x80, CHR 0xA8],
      [CHR 0xE2, CHR 0x80, CHR 0xA9], [CHR 0xE2, CHR 0x80, CHR 0xAF],
      [CHR 0xE2, CHR 0x81, CHR 0x9F], [CHR 0xE3, CHR 0x80, CHR 0x80]]"

function strip_leading :: "string list \<Rightarrow> string \<Rightarrow> string" where
  "strip_leading ws s =
     (case find (\<lambda>w. w \<noteq> [] \<and> prefix w s) ws of
        None \<Rightarrow> s
      | Some w \<Rightarrow> strip_leading ws (drop (length w) s))"
  by pat_completeness auto
termination
  by (relation "measure (\<lambda>(ws, s). length s)") (auto simp: find_Some_iff prefix_def)

declare strip_leading.simps [simp del]

definition py_lstrip :: "string \<Rightarrow> string" where
  "py_lstrip s = strip_leading py_whitespace s"

definition py_rstrip :: "string \<Rightarrow> string" where
  "py_rstrip s = rev (strip_leading (map rev py_whitespace) (rev s))"

definition py_strip :: "string \<Rightarrow> string" where
  "py_strip s = py_rstrip (py_lstrip s)"

section \<open>2. JSON values and the operations the handler applies to them\<close>

text \<open>
  What \<^verbatim>\<open>json.loads\<close> returns. A number keeps its lexeme (its value is never inspected); an
  object keeps its members in the order of the document, and a lookup takes the last member with
  the key, as the dictionary built from them does.
\<close>

datatype json =
    JNull
  | JBool bool
  | JNumber string
  | JString string
  | JArray "json list"
  | JObject "(string \<times> json) list"

definition dict_lookup :: "(string \<times> json) list \<Rightarrow> string \<Rightarrow> json option" where
  "dict_lookup kvs k = map_of (rev kvs) k"

text \<open>
  \<^verbatim>\<open>k in v\<close> for a string \<open>k\<close>: key membership on a dictionary, element membership on a
  list, substring on a string, \<^verbatim>\<open>TypeError\<close> on \<^verbatim>\<open>None\<close>, a boolean or a number.
\<close>

fun py_contains :: "string \<Rightarrow> json \<Rightarrow> exn + bool" where
  "py_contains k (JObject kvs) = Inr (dict_lookup kvs k \<noteq> None)"
| "py_contains k (JArray vs) = Inr (JString k \<in> set vs)"
| "py_contains k (JString s) = Inr (py_str_in k s)"
| "py_contains k JNull = Inl TypeError"
| "py_contains k (JBool b) = Inl TypeError"
| "py_contains k (JNumber n) = Inl TypeError"

text \<open>\<^verbatim>\<open>v[k]\<close> for a string \<open>k\<close>: only a dictionary can be indexed by a string.\<close>

fun py_getitem :: "json \<Rightarrow> string \<Rightarrow> exn + json" where
  "py_getitem (JObject kvs) k = (case dict_lookup kvs k of None \<Rightarrow> Inl (KeyError k) | Some v \<Rightarrow> Inr v)"
| "py_getitem v k = Inl TypeError"

text \<open>\<^verbatim>\<open>v.get(k, default)\<close>: only a dictionary has the method.\<close>

fun py_get :: "json \<Rightarrow> string \<Rightarrow> json \<Rightarrow> exn + json" where
  "py_get (JObject kvs) k d = Inr (case dict_lookup kvs k of None \<Rightarrow> d | Some v \<Rightarrow> v)"
| "py_get v k d = Inl AttributeError"

section \<open>3. The decoder \<^verbatim>\<open>json.loads\<close>\<close>

text \<open>
  The recursive-descent decoder of CPython's \<^verbatim>\<open>json\<close> package (\<^verbatim>\<open>scanstring\<close>,
  \<^verbatim>\<open>scan_once\<close>, \<^verbatim>\<open>JSONArray\<close>, \<^verbatim>\<open>JSONObject\<close>, \<^verbatim>\<open>JSONDecoder.decode\<close>), on the
  rest of the input instead of an index into it. \<open>None\<close> stands for a raised exception. Two
  limits of the interpreter are part of it or left out: an integer of more than 4300 digits is
  refused (the default of \<^verbatim>\<open>sys.set_int_max_str_digits\<close>); the recursion limit, which depends
  on the depth of the caller's stack, is not modelled.
\<close>

definition json_ws :: "char \<Rightarrow> bool" where
  "json_ws c = (c = CHR '' '' \<or> c = CHR 0x09 \<or> c = CHR 0x0A \<or> c = CHR 0x0D)"

definition skip_ws :: "string \<Rightarrow> string" where
  "skip_ws s = dropWhile json_ws s"

definition is_digit :: "char \<Rightarrow> bool" where
  "is_digit c = (48 \<le> (of_char c :: nat) \<and> (of_char c :: nat) \<le> 57)"

definition hex_val :: "char \<Rightarrow> nat option" where
  "hex_val c =
     (let n = (of_char c :: nat) in
      if 48 \<le> n \<and> n \<le> 57 then Some (n - 48)
      else if 97 \<le> n \<and> n \<le> 102 then Some (n - 87)
      else if 65 \<le> n \<and> n \<le> 70 then Some (n - 55)
      else None)"

definition hex4 :: "string \<Rightarrow> (nat \<times> string) option" where
  "hex4 s =
     (case s of
        a # b # c # d # rest \<Rightarrow>
          (case (hex_val a, hex_val b, hex_val c, hex_val d) of
             (Some x, Some y, Some z, Some w) \<Rightarrow> Some (((x * 16 + y) * 16 + z) * 16 + w, rest)
           | _ \<Rightarrow> None)
      | _ \<Rightarrow> None)"

definition utf8_encode :: "nat \<Rightarrow> string" where
  "utf8_encode n =
     (if n < 0x80 then [char_of n]
      else if n < 0x800 then [char_of (0xC0 + n div 64), char_of (0x80 + n mod 64)]
      else if n < 0x10000 then
        [char_of (0xE0 + n div 4096), char_of (0x80 + (n div 64) mod 64), char_of (0x80 + n mod 64)]
      else
        [char_of (0xF0 + n div 262144), char_of (0x80 + (n div 4096) mod 64),
         char_of (0x80 + (n div 64) mod 64), char_of (0x80 + n mod 64)])"

definition join_surrogate :: "nat \<Rightarrow> string \<Rightarrow> (nat \<times> string) option" where
  "join_surrogate u r =
     (if 0xD800 \<le> u \<and> u \<le> 0xDBFF then
        (case r of
           b # v # r1 \<Rightarrow>
             if b = CHR 0x5C \<and> v = CHR ''u'' then
               (case hex4 r1 of
                  None \<Rightarrow> None
                | Some (u2, r2) \<Rightarrow>
                    if 0xDC00 \<le> u2 \<and> u2 \<le> 0xDFFF
                    then Some (0x10000 + (u - 0xD800) * 0x400 + (u2 - 0xDC00), r2)
                    else Some (u, r))
             else Some (u, r)
         | _ \<Rightarrow> Some (u, r))
      else Some (u, r))"

definition unescape :: "char \<Rightarrow> char option" where
  "unescape e =
     (if e = CHR 0x22 then Some (CHR 0x22)
      else if e = CHR 0x5C then Some (CHR 0x5C)
      else if e = CHR ''/'' then Some (CHR ''/'')
      else if e = CHR ''b'' then Some (CHR 0x08)
      else if e = CHR ''f'' then Some (CHR 0x0C)
      else if e = CHR ''n'' then Some (CHR 0x0A)
      else if e = CHR ''r'' then Some (CHR 0x0D)
      else if e = CHR ''t'' then Some (CHR 0x09)
      else None)"

lemma hex4_length: "hex4 s = Some (u, r) \<Longrightarrow> length s = length r + 4"
  by (auto simp: hex4_def split: list.splits option.splits)

lemma join_surrogate_length: "join_surrogate u r = Some (cp, r') \<Longrightarrow> length r' \<le> length r"
  unfolding join_surrogate_def
  by (auto split: if_splits list.splits option.splits dest!: hex4_length)

function scanstring :: "string \<Rightarrow> (string \<times> string) option" where
  "scanstring [] = None"
| "scanstring (c # cs) =
     (if c = CHR 0x22 then Some ([], cs)
      else if c = CHR 0x5C then
        (case cs of
           [] \<Rightarrow> None
         | e # es \<Rightarrow>
             if e = CHR ''u'' then
               (case hex4 es of
                  None \<Rightarrow> None
                | Some (u, r) \<Rightarrow>
                    (case join_surrogate u r of
                       None \<Rightarrow> None
                     | Some (cp, r') \<Rightarrow>
                         map_option (\<lambda>(t, q). (utf8_encode cp @ t, q)) (scanstring r')))
             else
               (case unescape e of
                  None \<Rightarrow> None
                | Some ch \<Rightarrow> map_option (\<lambda>(t, q). (ch # t, q)) (scanstring es)))
      else if (of_char c :: nat) < 0x20 then None
      else map_option (\<lambda>(t, q). (c # t, q)) (scanstring cs))"
  by pat_completeness auto
termination
  by (relation "measure length") (auto dest!: hex4_length join_surrogate_length)

lemma scanstring_length: "scanstring s = Some (t, r) \<Longrightarrow> length r < length s"
proof (induction s arbitrary: t r rule: scanstring.induct)
  case 1
  then show ?case by simp
next
  case (2 c cs)
  then show ?case
    by (fastforce split: if_splits list.splits option.splits dest!: hex4_length join_surrogate_length)
qed

definition exponent_part :: "string \<Rightarrow> string \<times> string" where
  "exponent_part s =
     (case s of
        [] \<Rightarrow> ([], s)
      | e # r \<Rightarrow>
          if e = CHR ''e'' \<or> e = CHR ''E'' then
            (let (sg, r1) =
                   (case r of
                      [] \<Rightarrow> ([], r)
                    | g # r0 \<Rightarrow> if g = CHR ''+'' \<or> g = CHR ''-'' then ([g], r0) else ([], r))
             in case r1 of
                  [] \<Rightarrow> ([], s)
                | d # _ \<Rightarrow>
                    if is_digit d then (e # sg @ takeWhile is_digit r1, dropWhile is_digit r1)
                    else ([], s))
          else ([], s))"

definition fraction_part :: "string \<Rightarrow> string \<times> string" where
  "fraction_part s =
     (case s of
        p # q # qs \<Rightarrow>
          if p = CHR ''.'' \<and> is_digit q then (p # q # takeWhile is_digit qs, dropWhile is_digit qs)
          else ([], s)
      | _ \<Rightarrow> ([], s))"

definition max_str_digits :: nat where
  "max_str_digits = 4300"

definition match_number :: "string \<Rightarrow> (string \<times> string) option" where
  "match_number s =
     (let (sg, s1) = (case s of [] \<Rightarrow> ([], s) | c # cs \<Rightarrow> if c = CHR ''-'' then ([c], cs) else ([], s))
      in case s1 of
           [] \<Rightarrow> None
         | d # ds \<Rightarrow>
             if \<not> is_digit d then None
             else
               (let (ip, s2) = (if d = CHR ''0'' then ([d], ds)
                                else (d # takeWhile is_digit ds, dropWhile is_digit ds));
                    (fp, s3) = fraction_part s2;
                    (ep, s4) = exponent_part s3
                in if fp = [] \<and> ep = [] \<and> max_str_digits < length ip then None
                   else Some (sg @ ip @ fp @ ep, s4)))"

lemma skip_ws_length: "length (skip_ws s) \<le> length s"
  by (simp add: skip_ws_def length_dropWhile_le)

lemma skip_ws_Cons_length: "skip_ws s = d # r \<Longrightarrow> length r < length s"
  using skip_ws_length [of s] by simp

text \<open>
  \<open>scan_once\<close> reads one value, \<open>parse_array\<close> the elements of an array from its first element
  on, \<open>parse_object\<close> the members of an object from the quote of its first key on. The two tests
  on lengths make the recursion well-founded; lemma \<open>scan_length\<close> below shows that they never
  fail.
\<close>

function scan_once :: "string \<Rightarrow> (json \<times> string) option"
  and parse_array :: "string \<Rightarrow> (json list \<times> string) option"
  and parse_object :: "string \<Rightarrow> ((string \<times> json) list \<times> string) option"
where
  "scan_once s =
     (case s of
        [] \<Rightarrow> None
      | c # cs \<Rightarrow>
          if c = CHR 0x22 then map_option (\<lambda>(t, r). (JString t, r)) (scanstring cs)
          else if c = CHR ''{'' then
            (case skip_ws cs of
               [] \<Rightarrow> None
             | d # r \<Rightarrow>
                 if d = CHR ''}'' then Some (JObject [], r)
                 else map_option (\<lambda>(kvs, q). (JObject kvs, q)) (parse_object (d # r)))
          else if c = CHR ''['' then
            (case skip_ws cs of
               [] \<Rightarrow> None
             | d # r \<Rightarrow>
                 if d = CHR '']'' then Some (JArray [], r)
                 else map_option (\<lambda>(vs, q). (JArray vs, q)) (parse_array (d # r)))
          else if prefix ''null'' s then Some (JNull, drop 4 s)
          else if prefix ''true'' s then Some (JBool True, drop 4 s)
          else if prefix ''false'' s then Some (JBool False, drop 5 s)
          else if prefix ''NaN'' s then Some (JNumber ''NaN'', drop 3 s)
          else if prefix ''Infinity'' s then Some (JNumber ''Infinity'', drop 8 s)
          else if prefix ''-Infinity'' s then Some (JNumber ''-Infinity'', drop 9 s)
          else map_option (\<lambda>(n, r). (JNumber n, r)) (match_number s))"
| "parse_array s =
     (case scan_once s of
        None \<Rightarrow> None
      | Some (v, r) \<Rightarrow>
          if length s \<le> length r then None
          else
            (case skip_ws r of
               [] \<Rightarrow> None
             | d # r1 \<Rightarrow>
                 if d = CHR '']'' then Some ([v], r1)
                 else if d = CHR '','' then
                   map_option (\<lambda>(vs, q). (v # vs, q)) (parse_array (skip_ws r1))
                 else None))"
| "parse_object s =
     (case s of
        [] \<Rightarrow> None
      | c # cs \<Rightarrow>
          if c \<noteq> CHR 0x22 then None
          else
            (case scanstring cs of
               None \<Rightarrow> None
             | Some (key, r) \<Rightarrow>
                 (case skip_ws r of
                    [] \<Rightarrow> None
                  | d # r1 \<Rightarrow>
                      if d \<noteq> CHR '':'' then None
                      else
                        (case scan_once (skip_ws r1) of
                           None \<Rightarrow> None
                         | Some (v, r2) \<Rightarrow>
                             if length r1 \<le> length r2 then None
                             else
                               (case skip_ws r2 of
                                  [] \<Rightarrow> None
                                | e # r3 \<Rightarrow>
                                    if e = CHR ''}'' then Some ([(key, v)], r3)
                                    else if e = CHR '','' then
                                      map_option (\<lambda>(kvs, q). ((key, v) # kvs, q))
                                        (parse_object (skip_ws r3))
                                    else None)))))"
  by pat_completeness auto

termination
  apply (relation "measure (\<lambda>x. case x of Inl s \<Rightarrow> 2 * length s
                                 | Inr (Inl s) \<Rightarrow> 2 * length s + 1
                                 | Inr (Inr s) \<Rightarrow> 2 * length s + 1)")
  apply (auto dest!: skip_ws_Cons_length scanstring_length)
  subgoal for s v r r1 using skip_ws_length [of r1] by linarith
  subgoal for cs r r1 using skip_ws_length [of r1] by linarith
  subgoal for cs r r1 v r2 r3 using skip_ws_length [of r3] by linarith
  done

definition py_json_decode :: "string \<Rightarrow> json option" where
  "py_json_decode s =
     (case scan_once (skip_ws s) of
        None \<Rightarrow> None
      | Some (v, r) \<Rightarrow> if skip_ws r = [] then Some v else None)"

declare scan_once.simps [simp del] parse_array.simps [simp del] parse_object.simps [simp del]

lemma fraction_part_length: "fraction_part s = (fp, r) \<Longrightarrow> length r \<le> length s"
  unfolding fraction_part_def
  by (auto split: list.splits if_splits intro: le_trans [OF length_dropWhile_le])

lemma exponent_part_length: "exponent_part s = (ep, r) \<Longrightarrow> length r \<le> length s"
  unfolding exponent_part_def
  by (auto split: list.splits if_splits prod.splits simp: Let_def
           intro: le_trans [OF length_dropWhile_le])

lemma match_number_length: "match_number s = Some (n, r) \<Longrightarrow> length r < length s"
proof -
  assume m: "match_number s = Some (n, r)"
  obtain sg s1 where a: "(case s of [] \<Rightarrow> ([], s) | c # cs \<Rightarrow> if c = CHR ''-'' then ([c], cs) else ([], s)) = (sg, s1)"
    by (cases "(case s of [] \<Rightarrow> ([], s) | c # cs \<Rightarrow> if c = CHR ''-'' then ([c], cs) else ([], s))") auto
  then have l1: "length s1 \<le> length s" by (auto split: list.splits if_splits)
  from m a obtain d ds where s1: "s1 = d # ds" and dg: "is_digit d"
    by (cases s1) (auto simp: match_number_def split: if_splits)
  obtain ip s2 where b: "(if d = CHR ''0'' then ([d], ds)
       else (d # takeWhile is_digit ds, dropWhile is_digit ds)) = (ip, s2)"
    by (cases "d = CHR ''0''") auto
  then have l2: "length s2 \<le> length ds"
    by (auto split: if_splits intro: length_dropWhile_le)
  obtain fp s3 where c: "fraction_part s2 = (fp, s3)" by (cases "fraction_part s2") auto
  obtain ep s4 where d: "exponent_part s3 = (ep, s4)" by (cases "exponent_part s3") auto
  from m a s1 dg b c d have "r = s4"
    by (auto simp: match_number_def split: if_splits)
  with l1 l2 s1 fraction_part_length [OF c] exponent_part_length [OF d] show ?thesis by simp
qed

lemma scan_length:
  "(\<forall>v r. scan_once s = Some (v, r) \<longrightarrow> length r < length s)"
  "(\<forall>vs r. parse_array s1 = Some (vs, r) \<longrightarrow> length r < length s1)"
  "(\<forall>kvs r. parse_object s2 = Some (kvs, r) \<longrightarrow> length r < length s2)"
proof (induction s and s1 and s2 rule: scan_once_parse_array_parse_object.induct)
  case (1 s)
  show ?case
  proof (intro allI impI)
    fix v r
    assume h: "scan_once s = Some (v, r)"
    then obtain c cs where s: "s = c # cs"
      by (cases s) (simp_all add: scan_once.simps)
    consider (str) "c = CHR 0x22"
      | (obj) "c \<noteq> CHR 0x22" "c = CHR ''{''"
      | (arr) "c \<noteq> CHR 0x22" "c \<noteq> CHR ''{''" "c = CHR ''[''"
      | (other) "c \<noteq> CHR 0x22" "c \<noteq> CHR ''{''" "c \<noteq> CHR ''[''"
      by blast
    then show "length r < length s"
    proof cases
      case str
      with h s obtain t where "scanstring cs = Some (t, r)"
        by (auto simp: scan_once.simps)
      from scanstring_length [OF this] s show ?thesis by simp
    next
      case obj
      from h s obj obtain d r0 where w: "skip_ws cs = d # r0"
        by (cases "skip_ws cs") (simp_all add: scan_once.simps)
      from skip_ws_Cons_length [OF w] have l: "length r0 < length cs" .
      show ?thesis
      proof (cases "d = CHR ''}''")
        case True
        with h s obj w have "r = r0" by (simp add: scan_once.simps)
        with l s show ?thesis by simp
      next
        case False
        with h s obj w obtain kvs where p: "parse_object (d # r0) = Some (kvs, r)"
          by (auto simp: scan_once.simps)
        from "1.IH"(1) [OF s obj(1) obj(2) w False] p have "length r < length (d # r0)"
          by blast
        with l s show ?thesis by simp
      qed
    next
      case arr
      from h s arr obtain d r0 where w: "skip_ws cs = d # r0"
        by (cases "skip_ws cs") (simp_all add: scan_once.simps)
      from skip_ws_Cons_length [OF w] have l: "length r0 < length cs" .
      show ?thesis
      proof (cases "d = CHR '']''")
        case True
        with h s arr w have "r = r0" by (simp add: scan_once.simps)
        with l s show ?thesis by simp
      next
        case False
        with h s arr w obtain vs where p: "parse_array (d # r0) = Some (vs, r)"
          by (auto simp: scan_once.simps)
        from "1.IH"(2) [OF s arr(1) arr(2) arr(3) w False] p have "length r < length (d # r0)"
          by blast
        with l s show ?thesis by simp
      qed
    next
      case other
      have e: "scan_once s =
          (if prefix ''null'' s then Some (JNull, drop 4 s)
           else if prefix ''true'' s then Some (JBool True, drop 4 s)
           else if prefix ''false'' s then Some (JBool False, drop 5 s)
           else if prefix ''NaN'' s then Some (JNumber ''NaN'', drop 3 s)
           else if prefix ''Infinity'' s then Some (JNumber ''Infinity'', drop 8 s)
           else if prefix ''-Infinity'' s then Some (JNumber ''-Infinity'', drop 9 s)
           else map_option (\<lambda>(n, r). (JNumber n, r)) (match_number s))"
        using s other by (subst scan_once.simps) simp
      from h e have "r \<in> {drop 3 s, drop 4 s, drop 5 s, drop 8 s, drop 9 s}
          \<or> (\<exists>n. match_number s = Some (n, r))"
        by (auto split: if_splits)
      then show ?thesis
      proof
        assume "r \<in> {drop 3 s, drop 4 s, drop 5 s, drop 8 s, drop 9 s}"
        with s show ?thesis by auto
      next
        assume "\<exists>n. match_number s = Some (n, r)"
        then obtain n where "match_number s = Some (n, r)" ..
        from match_number_length [OF this] show ?thesis .
      qed
    qed
  qed
next
  case (2 s)
  show ?case
  proof (intro allI impI)
    fix vs r
    assume h: "parse_array s = Some (vs, r)"
    then obtain v r0 where so: "scan_once s = Some (v, r0)"
      by (cases "scan_once s") (auto simp: parse_array.simps)
    from "2.IH"(1) so have l0: "length r0 < length s" by blast
    then have g: "\<not> length s \<le> length r0" by simp
    from h so g obtain d r1 where w: "skip_ws r0 = d # r1"
      by (cases "skip_ws r0") (simp_all add: parse_array.simps)
    from skip_ws_Cons_length [OF w] have l1: "length r1 < length r0" .
    show "length r < length s"
    proof (cases "d = CHR '']''")
      case True
      with h so g w have "r = r1" by (simp add: parse_array.simps)
      with l0 l1 show ?thesis by simp
    next
      case False
      with h so g w have c: "d = CHR '',''"
        by (simp add: parse_array.simps split: if_splits)
      with h so g w False obtain vs' where p: "parse_array (skip_ws r1) = Some (vs', r)"
        by (auto simp: parse_array.simps)
      from "2.IH"(2) [OF so refl g w False c] p have "length r < length (skip_ws r1)"
        by blast
      with skip_ws_length [of r1] l0 l1 show ?thesis by simp
    qed
  qed
next
  case (3 s)
  show ?case
  proof (intro allI impI)
    fix kvs r
    assume h: "parse_object s = Some (kvs, r)"
    then obtain c cs where s: "s = c # cs"
      by (cases s) (simp_all add: parse_object.simps)
    from h s have q: "\<not> c \<noteq> CHR 0x22"
      by (auto simp: parse_object.simps split: if_splits)
    from h s q obtain key r0 where ss: "scanstring cs = Some (key, r0)"
      by (cases "scanstring cs") (auto simp: parse_object.simps)
    from scanstring_length [OF ss] have l0: "length r0 < length cs" .
    from h s q ss obtain d r1 where w: "skip_ws r0 = d # r1"
      by (cases "skip_ws r0") (simp_all add: parse_object.simps)
    from skip_ws_Cons_length [OF w] have l1: "length r1 < length r0" .
    from h s q ss w have col: "\<not> d \<noteq> CHR '':''"
      by (auto simp: parse_object.simps split: if_splits)
    from h s q ss w col obtain v r2 where so: "scan_once (skip_ws r1) = Some (v, r2)"
      by (cases "scan_once (skip_ws r1)") (auto simp: parse_object.simps)
    from "3.IH"(1) [OF s q ss refl w col] so have l2: "length r2 < length (skip_ws r1)"
      by blast
    with skip_ws_length [of r1] have g: "\<not> length r1 \<le> length r2" by simp
    from h s q ss w col so g obtain e r3 where w2: "skip_ws r2 = e # r3"
      by (cases "skip_ws r2") (simp_all add: parse_object.simps)
    from skip_ws_Cons_length [OF w2] have l3: "length r3 < length r2" .
    show "length r < length s"
    proof (cases "e = CHR ''}''")
      case True
      with h s q ss w col so g w2 have "r = r3" by (simp add: parse_object.simps)
      with l0 l1 l2 l3 s skip_ws_length [of r1] show ?thesis by simp
    next
      case False
      with h s q ss w col so g w2 have c: "e = CHR '',''"
        by (simp add: parse_object.simps split: if_splits)
      with h s q ss w col so g w2 False obtain kvs'
        where p: "parse_object (skip_ws r3) = Some (kvs', r)"
        by (auto simp: parse_object.simps)
      from "3.IH"(2) [OF s q ss refl w col so refl g w2 False c] p
      have "length r < length (skip_ws r3)" by blast
      with skip_ws_length [of r3] skip_ws_length [of r1] l0 l1 l2 l3 s show ?thesis by simp
    qed
  qed
qed


section \<open>4. The model capability and the libraries\<close>

text \<open>
  One call \<^verbatim>\<open>model.generate_content(parts)\<close> followed by \<^verbatim>\<open>response.text\<close> either raises
  an exception, of which only the text \<^verbatim>\<open>str(e)\<close> is used, or returns the reply's text.
\<close>

datatype outcome = Raises string | Returns string

type_synonym capability = "string list \<Rightarrow> outcome"

text \<open>
  The parameters: \<open>decode_error s\<close> is the text of the exception \<^verbatim>\<open>json.loads(s)\<close> raises on a
  document it refuses, \<open>markdown s\<close> the HTML \<^verbatim>\<open>markdown.markdown\<close> gives for the text \<open>s\<close>,
  \<open>repr v\<close> what an f-string prints for a value that is not a string.
\<close>

record libs =
  decode_error :: "string \<Rightarrow> string"
  markdown :: "string \<Rightarrow> string"
  repr :: "json \<Rightarrow> string"

definition json_loads :: "libs \<Rightarrow> string \<Rightarrow> string + json" where
  "json_loads L s = (case py_json_decode s of None \<Rightarrow> Inl (decode_error L s) | Some v \<Rightarrow> Inr v)"

text \<open>
  \<^verbatim>\<open>markdown.markdown(v)\<close> starts with \<^verbatim>\<open>v.strip()\<close>, which only a string has.
\<close>

definition markdown_markdown :: "libs \<Rightarrow> json \<Rightarrow> exn + string" where
  "markdown_markdown L v = (case v of JString s \<Rightarrow> Inr (markdown L s) | _ \<Rightarrow> Inl AttributeError)"

definition py_format :: "libs \<Rightarrow> json \<Rightarrow> string" where
  "py_format L v = (case v of JString s \<Rightarrow> s | _ \<Rightarrow> repr L v)"

section \<open>5. The program\<close>

definition SYSTEM_PROMPT :: string where
  "SYSTEM_PROMPT = concat
    [''\<newline>'',
     ''You are a literal and precise AI assistant. Your sole function is to help a Product Owner structure their raw input into a Jira ticket.\<newline>'',
     ''\<newline>'',
     ''**Core Directives:**\<newline>'',
     ''1.  **Strictly Adhere to Context:** DO NOT assume, invent, or imagine any details, examples, possibilities, or edge cases not explicitly mentioned in the user's input. Your analysis must be a direct logical extension of the provided text only.\<newline>'',
     ''2.  **No Beautification:** The output must be plain text. Do not use markdown for styling like bolding (`**`), headers (`##`), or quotes (`>`). The only required formatting is the section titles.\<newline>'',
     ''3.  **Be Concise:** Do not use filler words or verbose explanations. Keep the output direct and of a reasonable length.\<newline>'',
     ''4.  **Handle Irrelevant Questions:** If the user responds with \"NA\" or \"irrelevant\" to a question, acknowledge it and do not ask about that topic again.\<newline>'',
     ''\<newline>'',
     ''**Workflow:**\<newline>'',
     ''1.  **On First Input:** Receive the `User Story` and `Context`. Analyze ONLY this information to create a draft. Identify ambiguities WITHIN the provided text and formulate them as `clarifying_questions`.\<newline>'',
     ''2.  **On Subsequent Inputs:** Receive the user's answers. Integrate the new, factual information into the ticket. Refine the draft. If new ambiguities arise from the answers, ask new questions. If the ticket is sufficiently detailed based on the given information, return an empty list for `clarifying_questions`.\<newline>'',
     ''\<newline>'',
     ''**Output Structure:**\<newline>'',
     ''Your response MUST be a valid JSON object with three keys: \"ticket_draft\", \"clarifying_questions\", and \"open_questions\".\<newline>'',
     ''\<newline>'',
     ''- `ticket_draft`: A plain text string containing ONLY the following sections: `User Story`, `Context`, `Acceptance Criteria`.\<newline>'',
     ''- `clarifying_questions`: A list of strings for the PO to answer.\<newline>'',
     ''- `open_questions`: A list of strings identifying topics for developers to explore, based ONLY on ambiguities in the context.\<newline>'',
     ''\<newline>'',
     ''**Example JSON Output:**\<newline>'',
     ''{\<newline>'',
     ''  \"ticket_draft\": \"User Story'' @ [CHR 0x5C] @ ''nAs a user, I want to see detailed error messages.'' @ [CHR 0x5C] @ ''n'' @ [CHR 0x5C] @ ''nContext'' @ [CHR 0x5C] @ ''nThe current system shows a generic 'Failed' message. We need to display specific errors from the backend.'' @ [CHR 0x5C] @ ''n'' @ [CHR 0x5C] @ ''nAcceptance Criteria'' @ [CHR 0x5C] @ ''n- The system must display specific error messages from the backend instead of 'Failed'.\",\<newline>'',
     ''  \"clarifying_questions\": [\<newline>'',
     ''    \"What specific backend error messages should be displayed?\",\<newline>'',
     ''    \"Should there be a retry button for certain types of errors?\"\<newline>'',
     ''  ],\<newline>'',
     ''  \"open_questions\": [\<newline>'',
     ''    \"What are all the possible error categories we need to handle?\",\<newline>'',
     ''    \"How should the different errors be displayed in the UI (e.g., tooltip, table)?\"\<newline>'',
     ''  ]\<newline>'',
     ''}\<newline>'']"

text \<open>
  Lines 9 to 13: the global \<^verbatim>\<open>model\<close> is built once, when the module is loaded, from the
  environment; \<^verbatim>\<open>KeyError\<close> on the credential leaves it \<^verbatim>\<open>None\<close>. \<open>backend key\<close> is the
  capability the service gives for a key.
\<close>

definition load_model :: "(string \<rightharpoonup> string) \<Rightarrow> (string \<Rightarrow> capability) \<Rightarrow> capability option" where
  "load_model environ backend =
     (case environ ''GOOGLE_API_KEY'' of None \<Rightarrow> None | Some api_key \<Rightarrow> Some (backend api_key))"

definition error_dict :: "string \<Rightarrow> json" where
  "error_dict msg = JObject [(''error'', JString msg)]"

text \<open>
  \<^verbatim>\<open>get_ai_analysis\<close> (lines 131 to 138). The second component of the result lists the calls
  made to the capability, each by its argument.
\<close>

definition get_ai_analysis :: "libs \<Rightarrow> capability option \<Rightarrow> string \<Rightarrow> json \<times> string list list" where
  "get_ai_analysis L model prompt =
     (case model of
        None \<Rightarrow> (error_dict ''API Key not configured.'', [])
      | Some generate_content \<Rightarrow>
          (case generate_content [SYSTEM_PROMPT, prompt] of
             Raises e \<Rightarrow> (error_dict (''An error occurred: '' @ e), [[SYSTEM_PROMPT, prompt]])
           | Returns text \<Rightarrow>
               (let cleaned_response =
                      py_replace ''```'' [] (py_replace ''```json'' [] (py_strip text))
                in case json_loads L cleaned_response of
                     Inl e \<Rightarrow> (error_dict (''An error occurred: '' @ e), [[SYSTEM_PROMPT, prompt]])
                   | Inr v \<Rightarrow> (v, [[SYSTEM_PROMPT, prompt]]))))"

text \<open>The loop of lines 160 to 167 of \<^verbatim>\<open>index\<close>, from the counter \<open>i\<close> on.\<close>

function answers_loop :: "form \<Rightarrow> nat \<Rightarrow> string \<Rightarrow> exn + string" where
  "answers_loop f i answers_text =
     (if form_contains f (question_key i) then
        (case form_getitem f (question_key i) of
           Inl e \<Rightarrow> Inl e
         | Inr question \<Rightarrow>
             (case form_getitem f (answer_key i) of
                Inl e \<Rightarrow> Inl e
              | Inr answer \<Rightarrow>
                  answers_loop f (i + 1)
                    (if answer \<noteq> []
                     then answers_text @ ''\<newline>\<newline>Question: '' @ question @ ''\<newline>Answer: '' @ answer
                     else answers_text)))
      else Inr answers_text)"
  by pat_completeness auto
termination
proof (relation "measure (\<lambda>(f, i, t). card {j. i \<le> j \<and> form_contains f (question_key j)})")
  show "wf (measure (\<lambda>(f, i, t). card {j. i \<le> j \<and> form_contains f (question_key j)}))"
    by simp
next
  fix f :: form and i :: nat and answers_text x2 x2a :: string
  assume c: "form_contains f (question_key i)"
  have fin: "finite {j. i \<le> j \<and> form_contains f (question_key j)}"
    using finite_question_indices [of f] by (rule rev_finite_subset) auto
  have "{j. i + 1 \<le> j \<and> form_contains f (question_key j)}
          \<subset> {j. i \<le> j \<and> form_contains f (question_key j)}"
  proof
    show "{j. i + 1 \<le> j \<and> form_contains f (question_key j)}
          \<subseteq> {j. i \<le> j \<and> form_contains f (question_key j)}" by auto
    have "i \<in> {j. i \<le> j \<and> form_contains f (question_key j)}" using c by simp
    moreover have "i \<notin> {j. i + 1 \<le> j \<and> form_contains f (question_key j)}" by simp
    ultimately show "{j. i + 1 \<le> j \<and> form_contains f (question_key j)}
          \<noteq> {j. i \<le> j \<and> form_contains f (question_key j)}" by metis
  qed
  with fin have "card {j. i + 1 \<le> j \<and> form_contains f (question_key j)}
          < card {j. i \<le> j \<and> form_contains f (question_key j)}"
    by (rule psubset_card_mono)
  then show "((f, i + 1,
        if x2a \<noteq> [] then answers_text @ ''\<newline>\<newline>Question: '' @ x2 @ ''\<newline>Answer: '' @ x2a
        else answers_text), f, i, answers_text)
      \<in> measure (\<lambda>(f, i, t). card {j. i \<le> j \<and> form_contains f (question_key j)})"
    by simp
qed

declare answers_loop.simps [simp del]

text \<open>
  Lines 153 to 170 of \<^verbatim>\<open>index\<close>: the two required fields, the prompt, the answers. The
  result is the user story, the context and the prompt.
\<close>

definition compose_prompt :: "form \<Rightarrow> exn + string \<times> string \<times> string" where
  "compose_prompt f =
     (case form_getitem f ''user_story'' of
        Inl e \<Rightarrow> Inl e
      | Inr user_story \<Rightarrow>
          (case form_getitem f ''context'' of
             Inl e \<Rightarrow> Inl e
           | Inr context_text \<Rightarrow>
               (let prompt = ''User Story: '' @ user_story @ ''\<newline>\<newline>Context/Brain Dump:\<newline>'' @ context_text
                in case answers_loop f 0 [] of
                     Inl e \<Rightarrow> Inl e
                   | Inr answers_text \<Rightarrow>
                       Inr (user_story, context_text,
                            if answers_text \<noteq> []
                            then prompt @ ''\<newline>\<newline>--- User's Answers to Previous Questions ---'' @ answers_text
                            else prompt))))"

text \<open>
  Lines 175 to 181 of \<^verbatim>\<open>index\<close>: from the analysis to the preview and the questions shown.
\<close>

definition present_analysis :: "libs \<Rightarrow> json \<Rightarrow> exn + string \<times> json" where
  "present_analysis L analysis =
     (case py_contains ''error'' analysis of
        Inl e \<Rightarrow> Inl e
      | Inr True \<Rightarrow>
          (case py_getitem analysis ''error'' of
             Inl e \<Rightarrow> Inl e
           | Inr v \<Rightarrow> Inr (''<p class='error'>Error: '' @ py_format L v @ ''</p>'', JArray []))
      | Inr False \<Rightarrow>
          (case py_get analysis ''ticket_draft'' (JString []) of
             Inl e \<Rightarrow> Inl e
           | Inr ticket_draft_md \<Rightarrow>
               (case markdown_markdown L ticket_draft_md of
                  Inl e \<Rightarrow> Inl e
                | Inr html \<Rightarrow>
                    (case py_get analysis ''clarifying_questions'' (JArray []) of
                       Inl e \<Rightarrow> Inl e
                     | Inr qs \<Rightarrow> Inr (html, qs)))))"

text \<open>
  The request, and the keyword arguments of \<^verbatim>\<open>render_template_string\<close>: either only
  \<^verbatim>\<open>api_key_error\<close> (line 144) or the whole \<^verbatim>\<open>view_data\<close> (line 186).
\<close>

datatype http_method = GET | POST

record request =
  req_method :: http_method
  req_form :: form

record view_data =
  user_story :: string
  context_text :: string
  preview_html :: string
  clarifying_questions :: json
  api_key_error :: "string option"

datatype template_args = ApiKeyError string | View view_data

text \<open>
  \<^verbatim>\<open>render_template_string(HTML_TEMPLATE, ...)\<close> (lines 144 and 186). The template loops
  over \<^verbatim>\<open>clarifying_questions\<close> (lines 97 and 104): Jinja iterates a list, a string or a
  dictionary, and raises \<^verbatim>\<open>TypeError\<close> for \<^verbatim>\<open>None\<close>, a boolean or a number; a variable
  that is not passed at all is iterated as empty. Nothing else in the template can raise. The
  page is represented by the arguments it is rendered from.
\<close>

fun jinja_iterable :: "json \<Rightarrow> bool" where
  "jinja_iterable (JArray vs) = True"
| "jinja_iterable (JString s) = True"
| "jinja_iterable (JObject kvs) = True"
| "jinja_iterable JNull = False"
| "jinja_iterable (JBool b) = False"
| "jinja_iterable (JNumber n) = False"

definition render_template_string :: "template_args \<Rightarrow> exn + template_args" where
  "render_template_string args =
     (case args of
        ApiKeyError msg \<Rightarrow> Inr args
      | View vd \<Rightarrow> if jinja_iterable (clarifying_questions vd) then Inr args else Inl TypeError)"

text \<open>
  \<^verbatim>\<open>index\<close> (lines 143 to 186): the page, or the exception that leaves the handler, and
  the calls made to the capability.
\<close>

definition index :: "libs \<Rightarrow> capability option \<Rightarrow> request \<Rightarrow> (exn + template_args) \<times> string list list" where
  "index L model req =
     (if model = None
      then (render_template_string (ApiKeyError ''ERROR: GOOGLE_API_KEY is not set.''), [])
      else if req_method req = POST then
        (case compose_prompt (req_form req) of
           Inl e \<Rightarrow> (Inl e, [])
         | Inr (us, ctx, prompt) \<Rightarrow>
             (let (analysis, calls) = get_ai_analysis L model prompt
              in case present_analysis L analysis of
                   Inl e \<Rightarrow> (Inl e, calls)
                 | Inr (html, qs) \<Rightarrow>
                     (render_template_string
                        (View \<lparr>user_story = us, context_text = ctx, preview_html = html,
                               clarifying_questions = qs, api_key_error = None\<rparr>), calls)))
      else
        (render_template_string
           (View \<lparr>user_story = [], context_text = [], preview_html = [],
                  clarifying_questions = JArray [], api_key_error = None\<rparr>), []))"

text \<open>
  The life of the process: the module is loaded once, then every request is handled with the
  \<^verbatim>\<open>model\<close> found at that moment.
\<close>

definition serve ::
  "libs \<Rightarrow> (string \<rightharpoonup> string) \<Rightarrow> (string \<Rightarrow> capability) \<Rightarrow> request list \<Rightarrow>
     ((exn + template_args) \<times> string list list) list" where
  "serve L environ backend reqs = (let model = load_model environ backend in map (index L model) reqs)"

section \<open>6. Properties of the prompt composition\<close>

subsection \<open>The calls made by a request\<close>

lemma get_ai_analysis_calls:
  "snd (get_ai_analysis L (Some gc) prompt) = [[SYSTEM_PROMPT, prompt]]"
  by (simp add: get_ai_analysis_def Let_def split: outcome.splits sum.splits)

lemma index_calls:
  assumes "req_method req = POST" and "compose_prompt (req_form req) = Inr (us, ctx, prompt)"
  shows "snd (index L (Some gc) req) = [[SYSTEM_PROMPT, prompt]]"
proof -
  obtain analysis calls where g: "get_ai_analysis L (Some gc) prompt = (analysis, calls)"
    by (cases "get_ai_analysis L (Some gc) prompt")
  with get_ai_analysis_calls [of L gc prompt] have c: "calls = [[SYSTEM_PROMPT, prompt]]" by simp
  from assms g c show ?thesis
    by (simp add: index_def split: sum.splits prod.splits)
qed

subsection \<open>What the composed prompt consists of\<close>

text \<open>
  The words of the specification: a question with its answer is the block
  \<^verbatim>\<open>Question: q\<close>, line break, \<^verbatim>\<open>Answer: a\<close>; the prompt is the user story and the context,
  followed, when some answer is not empty, by the separator header and the blocks of the answered
  questions, each after a blank line. \<open>carries f qas\<close> says that the form \<open>f\<close> holds exactly
  the questions and answers \<open>qas\<close> under the fields \<^verbatim>\<open>question_0\<close>, \<^verbatim>\<open>answer_0\<close>, ...
\<close>

definition answer_block :: "string \<times> string \<Rightarrow> string" where
  "answer_block qa =
     (if snd qa \<noteq> [] then ''\<newline>\<newline>Question: '' @ fst qa @ ''\<newline>Answer: '' @ snd qa else [])"

definition question_block :: "string \<Rightarrow> string \<Rightarrow> string" where
  "question_block q a = ''Question: '' @ q @ ''\<newline>Answer: '' @ a"

definition answered :: "(string \<times> string) list \<Rightarrow> (string \<times> string) list" where
  "answered qas = filter (\<lambda>qa. snd qa \<noteq> []) qas"

definition answers_header :: string where
  "answers_header = ''\<newline>\<newline>--- User's Answers to Previous Questions ---''"

definition base_prompt :: "string \<Rightarrow> string \<Rightarrow> string" where
  "base_prompt us ctx = ''User Story: '' @ us @ ''\<newline>\<newline>Context/Brain Dump:\<newline>'' @ ctx"

definition spec_prompt :: "string \<Rightarrow> string \<Rightarrow> (string \<times> string) list \<Rightarrow> string" where
  "spec_prompt us ctx qas =
     base_prompt us ctx @
     (if answered qas = [] then []
      else answers_header @
           concat (map (\<lambda>qa. ''\<newline>\<newline>'' @ question_block (fst qa) (snd qa)) (answered qas)))"

definition carries :: "form \<Rightarrow> (string \<times> string) list \<Rightarrow> bool" where
  "carries f qas =
     ((\<forall>j<length qas. map_of f (question_key j) = Some (fst (qas ! j))
                      \<and> map_of f (answer_key j) = Some (snd (qas ! j)))
      \<and> map_of f (question_key (length qas)) = None)"

lemma py_str_in_sublist: "py_str_in sub s \<longleftrightarrow> sublist sub s"
  by (induction s) (simp_all add: sublist_Cons_right)

lemma answers_loop_blocks:
  assumes "carries f qas" and "i \<le> length qas"
  shows "answers_loop f i acc = Inr (acc @ concat (map answer_block (drop i qas)))"
  using assms(2)
proof (induction "length qas - i" arbitrary: i acc)
  case 0
  then have i: "i = length qas" by simp
  with assms(1) have "\<not> form_contains f (question_key i)"
    by (simp add: carries_def form_contains_def)
  with i show ?case by (subst answers_loop.simps) simp
next
  case (Suc n)
  then have lt: "i < length qas" by simp
  with assms(1) have q: "map_of f (question_key i) = Some (fst (qas ! i))"
    and a: "map_of f (answer_key i) = Some (snd (qas ! i))"
    by (simp_all add: carries_def)
  from Suc have n: "n = length qas - (i + 1)" and le: "i + 1 \<le> length qas" by simp_all
  have d: "drop i qas = qas ! i # drop (i + 1) qas"
    using lt by (simp add: Cons_nth_drop_Suc)
  show ?case
    apply (subst answers_loop.simps)
    apply (simp only: Suc.hyps(1) [OF n le] d)
    apply (simp add: q a form_contains_def form_getitem_def answer_block_def)
    done
qed

lemma compose_prompt_blocks:
  assumes "map_of f ''user_story'' = Some us" and "map_of f ''context'' = Some ctx"
    and "carries f qas"
  shows "compose_prompt f =
           Inr (us, ctx,
                ''User Story: '' @ us @ ''\<newline>\<newline>Context/Brain Dump:\<newline>'' @ ctx @
                (if concat (map answer_block qas) = [] then []
                 else answers_header @ concat (map answer_block qas)))"
  using assms answers_loop_blocks [OF assms(3), of 0 "[]"]
  by (simp add: compose_prompt_def form_getitem_def answers_header_def)

lemma answer_blocks_answered:
  "concat (map answer_block qas) =
     concat (map (\<lambda>qa. ''\<newline>\<newline>'' @ question_block (fst qa) (snd qa)) (answered qas))"
  by (induction qas) (simp_all add: answer_block_def answered_def question_block_def)

lemma answered_Nil_iff:
  "concat (map (\<lambda>qa. ''\<newline>\<newline>'' @ question_block (fst qa) (snd qa)) (answered qas)) = []
     \<longleftrightarrow> answered qas = []"
  by (cases "answered qas") simp_all

lemma compose_prompt_spec:
  assumes "map_of f ''user_story'' = Some us" and "map_of f ''context'' = Some ctx"
    and "carries f qas"
  shows "compose_prompt f = Inr (us, ctx, spec_prompt us ctx qas)"
proof -
  have e: "(concat (map answer_block qas) = []) = (answered qas = [])"
    by (simp only: answer_blocks_answered answered_Nil_iff)
  show ?thesis
    unfolding compose_prompt_blocks [OF assms] spec_prompt_def base_prompt_def e
    by (simp only: answer_blocks_answered append_assoc)
qed

lemma block_in_spec_prompt:
  assumes "i < length qas" and "snd (qas ! i) \<noteq> []"
  shows "py_str_in (question_block (fst (qas ! i)) (snd (qas ! i))) (spec_prompt us ctx qas)"
proof -
  let ?blk = "\<lambda>qa. ''\<newline>\<newline>'' @ question_block (fst qa) (snd qa)"
  from assms have m: "qas ! i \<in> set (answered qas)" by (simp add: answered_def)
  then obtain xs ys where sp: "answered qas = xs @ qas ! i # ys"
    by (auto dest: split_list)
  then have ne: "answered qas \<noteq> []" by simp
  have e: "spec_prompt us ctx qas =
          (base_prompt us ctx @ answers_header @ concat (map ?blk xs) @ ''\<newline>\<newline>'')
          @ question_block (fst (qas ! i)) (snd (qas ! i)) @ concat (map ?blk ys)"
    by (simp add: spec_prompt_def sp)
  have "sublist (question_block (fst (qas ! i)) (snd (qas ! i))) (spec_prompt us ctx qas)"
    unfolding e by (rule sublist_appendI)
  then show ?thesis by (simp add: py_str_in_sublist)
qed

lemma str_nat_0: "str_nat 0 = ''0''"
  by code_simp

lemma str_nat_1: "str_nat 1 = ''1''"
  by code_simp

lemma str_nat_Suc_0: "str_nat (Suc 0) = ''1''"
  by code_simp

lemma str_nat_2: "str_nat 2 = ''2''"
  by code_simp

lemma carries_example:
  "carries [(''user_story'', ''Reset''), (''context'', ''c''), (''question_0'', ''Who?''),
            (''answer_0'', ''Admins''), (''question_1'', ''When?''), (''answer_1'', [])]
           [(''Who?'', ''Admins''), (''When?'', [])]"
  unfolding carries_def
proof (intro conjI allI impI)
  let ?f = "[(''user_story'', ''Reset''), (''context'', ''c''), (''question_0'', ''Who?''),
            (''answer_0'', ''Admins''), (''question_1'', ''When?''), (''answer_1'', [])]"
  let ?qas = "[(''Who?'', ''Admins''), (''When?'', [])]"
  have q0: "map_of ?f (question_key 0) = Some (fst (?qas ! 0))" by code_simp
  have q1: "map_of ?f (question_key 1) = Some (fst (?qas ! 1))" by code_simp
  have a0: "map_of ?f (answer_key 0) = Some (snd (?qas ! 0))" by code_simp
  have a1: "map_of ?f (answer_key 1) = Some (snd (?qas ! 1))" by code_simp
  show "map_of ?f (question_key (length ?qas)) = None" by code_simp
  fix j :: nat
  assume "j < length ?qas"
  then have j: "j = 0 \<or> j = 1" by auto
  from j show "map_of ?f (question_key j) = Some (fst (?qas ! j))"
  proof
    assume "j = 0" then show ?thesis by (simp only: q0)
  next
    assume "j = 1" then show ?thesis by (simp only: q1)
  qed
  from j show "map_of ?f (answer_key j) = Some (snd (?qas ! j))"
  proof
    assume "j = 0" then show ?thesis by (simp only: a0)
  next
    assume "j = 1" then show ?thesis by (simp only: a1)
  qed
qed

subsection \<open>Scenario A\<close>

lemma scenario_A_compose:
  "compose_prompt [(''user_story'', ''As a user, I want password reset''), (''context'', [])]
     = Inr (''As a user, I want password reset'', [],
            ''User Story: As a user, I want password reset\<newline>\<newline>Context/Brain Dump:\<newline>'')"
  by (simp add: compose_prompt_def form_getitem_def answers_loop.simps form_contains_def
        question_key_def str_nat.simps)

text \<open>
  Claim C7. With the user story "As a user, I want password reset", an empty context and no prior
  question, the composed prompt is exactly the text
  "User Story: As a user, I want password reset", a blank line, "Context/Brain Dump:" and a line
  break; it is the prompt sent to the model, after the fixed instructions.
\<close>

theorem scenario_A_prompt:
  "compose_prompt [(''user_story'', ''As a user, I want password reset''), (''context'', [])]
     = Inr (''As a user, I want password reset'', [],
            ''User Story: As a user, I want password reset\<newline>\<newline>Context/Brain Dump:\<newline>'')
   \<and> snd (index L (Some gc)
          \<lparr>req_method = POST,
           req_form = [(''user_story'', ''As a user, I want password reset''), (''context'', [])]\<rparr>)
     = [[SYSTEM_PROMPT,
         ''User Story: As a user, I want password reset\<newline>\<newline>Context/Brain Dump:\<newline>'']]"
  using scenario_A_compose index_calls [of "\<lparr>req_method = POST,
           req_form = [(''user_story'', ''As a user, I want password reset''), (''context'', [])]\<rparr>"
        "''As a user, I want password reset''" "[]"
        "''User Story: As a user, I want password reset\<newline>\<newline>Context/Brain Dump:\<newline>''" L gc]
  by simp

subsection \<open>Answered and unanswered questions\<close>

text \<open>
  Claim C2, as amended. For a form in which every prior question has its answer field: the
  composed prompt is the one of the specification, whose answers section holds the blocks of the
  questions with a non-empty answer, in order, and nothing for the others; so the block of every
  question with a non-empty answer occurs in the prompt.
\<close>

theorem answered_questions_compose:
  assumes "map_of f ''user_story'' = Some us" and "map_of f ''context'' = Some ctx"
    and "carries f qas"
  shows "compose_prompt f = Inr (us, ctx, spec_prompt us ctx qas)
         \<and> (\<forall>i<length qas. snd (qas ! i) \<noteq> [] \<longrightarrow>
               py_str_in (question_block (fst (qas ! i)) (snd (qas ! i))) (spec_prompt us ctx qas))"
  using compose_prompt_spec [OF assms] block_in_spec_prompt by blast

text \<open>The theorem at a form with one answered and one unanswered question.\<close>

theorem answered_questions_compose_witness:
  "map_of [(''user_story'', ''Reset''), (''context'', ''c''), (''question_0'', ''Who?''),
            (''answer_0'', ''Admins''), (''question_1'', ''When?''), (''answer_1'', [])] ''user_story'' = Some ''Reset''
   \<and> map_of [(''user_story'', ''Reset''), (''context'', ''c''), (''question_0'', ''Who?''),
            (''answer_0'', ''Admins''), (''question_1'', ''When?''), (''answer_1'', [])] ''context'' = Some ''c''
   \<and> carries [(''user_story'', ''Reset''), (''context'', ''c''), (''question_0'', ''Who?''),
            (''answer_0'', ''Admins''), (''question_1'', ''When?''), (''answer_1'', [])]
           [(''Who?'', ''Admins''), (''When?'', [])]
   \<and> compose_prompt [(''user_story'', ''Reset''), (''context'', ''c''), (''question_0'', ''Who?''),
            (''answer_0'', ''Admins''), (''question_1'', ''When?''), (''answer_1'', [])]
       = Inr (''Reset'', ''c'',
              ''User Story: Reset\<newline>\<newline>Context/Brain Dump:\<newline>c\<newline>\<newline>--- User's Answers to Previous Questions ---\<newline>\<newline>Question: Who?\<newline>Answer: Admins'')
   \<and> py_str_in ''Question: Who?\<newline>Answer: Admins''
        (spec_prompt ''Reset'' ''c'' [(''Who?'', ''Admins''), (''When?'', [])])"
proof -
  let ?f = "[(''user_story'', ''Reset''), (''context'', ''c''), (''question_0'', ''Who?''),
            (''answer_0'', ''Admins''), (''question_1'', ''When?''), (''answer_1'', [])]"
  let ?qas = "[(''Who?'', ''Admins''), (''When?'', [])]"
  have u: "map_of ?f ''user_story'' = Some ''Reset''" by simp
  have c: "map_of ?f ''context'' = Some ''c''" by simp
  have p: "spec_prompt ''Reset'' ''c'' ?qas =
      ''User Story: Reset\<newline>\<newline>Context/Brain Dump:\<newline>c\<newline>\<newline>--- User's Answers to Previous Questions ---\<newline>\<newline>Question: Who?\<newline>Answer: Admins''"
    by code_simp
  have b: "question_block (fst (?qas ! 0)) (snd (?qas ! 0)) = ''Question: Who?\<newline>Answer: Admins''"
    by code_simp
  note t = answered_questions_compose [OF u c carries_example]
  from t have 1: "compose_prompt ?f = Inr (''Reset'', ''c'', spec_prompt ''Reset'' ''c'' ?qas)"
    by (rule conjunct1)
  from t have all: "\<forall>i<length ?qas. snd (?qas ! i) \<noteq> [] \<longrightarrow>
      py_str_in (question_block (fst (?qas ! i)) (snd (?qas ! i))) (spec_prompt ''Reset'' ''c'' ?qas)"
    by (rule conjunct2)
  have 2: "py_str_in (question_block (fst (?qas ! 0)) (snd (?qas ! 0)))
      (spec_prompt ''Reset'' ''c'' ?qas)"
    by (rule mp [OF mp [OF spec [OF all, of 0]]]) simp_all
  from 1 have 3: "compose_prompt ?f = Inr (''Reset'', ''c'',
      ''User Story: Reset\<newline>\<newline>Context/Brain Dump:\<newline>c\<newline>\<newline>--- User's Answers to Previous Questions ---\<newline>\<newline>Question: Who?\<newline>Answer: Admins'')"
    by (simp only: p)
  from 2 have 4: "py_str_in ''Question: Who?\<newline>Answer: Admins'' (spec_prompt ''Reset'' ''c'' ?qas)"
    by (simp only: b)
  from u c carries_example 3 4 show ?thesis by (intro conjI)
qed

text \<open>
  Claim C2 as stated fails where an answer field is absent: the index is not dropped, the
  lookup of the field raises and no prompt is composed.
\<close>

theorem absent_answer_raises:
  "compose_prompt [(''user_story'', ''Reset password''), (''context'', []),
                   (''question_0'', ''Which users?'')]
     = Inl (BadRequestKeyError ''answer_0'')"
  by code_simp

subsection \<open>Questions left unanswered\<close>

lemma carries_no_questions:
  "carries [(''user_story'', us), (''context'', ctx)] []"
  by (simp add: carries_def question_key_def)

lemma spec_prompt_unanswered:
  "list_all (\<lambda>qa. snd qa = []) qas \<Longrightarrow> spec_prompt us ctx qas = base_prompt us ctx"
  by (simp add: spec_prompt_def answered_def list_all_iff filter_empty_conv)

text \<open>
  Claim C6, as amended. For every user story, context and sequence of prior questions whose
  answer fields are all present and empty, the composed prompt is the one composed with no prior
  question at all: the user story and the context, with neither the separator header nor any
  block.
\<close>

theorem unanswered_round_trip:
  assumes "map_of f ''user_story'' = Some us" and "map_of f ''context'' = Some ctx"
    and "carries f qas" and "list_all (\<lambda>qa. snd qa = []) qas"
  shows "compose_prompt f = Inr (us, ctx, base_prompt us ctx)
         \<and> compose_prompt f = compose_prompt [(''user_story'', us), (''context'', ctx)]"
proof -
  have 1: "compose_prompt f = Inr (us, ctx, base_prompt us ctx)"
    using compose_prompt_spec [OF assms(1-3)] spec_prompt_unanswered [OF assms(4)] by simp
  have "compose_prompt [(''user_story'', us), (''context'', ctx)]
          = Inr (us, ctx, spec_prompt us ctx [])"
    by (rule compose_prompt_spec [OF _ _ carries_no_questions]) simp_all
  then have 2: "compose_prompt [(''user_story'', us), (''context'', ctx)]
          = Inr (us, ctx, base_prompt us ctx)"
    by (simp add: spec_prompt_unanswered)
  from 1 2 show ?thesis by simp
qed

lemma carries_unanswered_example:
  "carries [(''user_story'', ''Reset''), (''context'', ''c''), (''question_0'', ''Who?''),
            (''answer_0'', []), (''question_1'', ''When?''), (''answer_1'', [])]
           [(''Who?'', []), (''When?'', [])]"
  unfolding carries_def
proof (intro conjI allI impI)
  let ?f = "[(''user_story'', ''Reset''), (''context'', ''c''), (''question_0'', ''Who?''),
            (''answer_0'', []), (''question_1'', ''When?''), (''answer_1'', [])]"
  let ?qas = "[(''Who?'', []), (''When?'', [])] :: (string \<times> string) list"
  have q0: "map_of ?f (question_key 0) = Some (fst (?qas ! 0))" by code_simp
  have q1: "map_of ?f (question_key 1) = Some (fst (?qas ! 1))" by code_simp
  have a0: "map_of ?f (answer_key 0) = Some (snd (?qas ! 0))" by code_simp
  have a1: "map_of ?f (answer_key 1) = Some (snd (?qas ! 1))" by code_simp
  show "map_of ?f (question_key (length ?qas)) = None" by code_simp
  fix j :: nat
  assume "j < length ?qas"
  then have j: "j = 0 \<or> j = 1" by auto
  from j show "map_of ?f (question_key j) = Some (fst (?qas ! j))"
  proof
    assume "j = 0" then show ?thesis by (simp only: q0)
  next
    assume "j = 1" then show ?thesis by (simp only: q1)
  qed
  from j show "map_of ?f (answer_key j) = Some (snd (?qas ! j))"
  proof
    assume "j = 0" then show ?thesis by (simp only: a0)
  next
    assume "j = 1" then show ?thesis by (simp only: a1)
  qed
qed

text \<open>The theorem at a form with two questions and two empty answers.\<close>

theorem unanswered_round_trip_witness:
  "map_of [(''user_story'', ''Reset''), (''context'', ''c''), (''question_0'', ''Who?''),
            (''answer_0'', []), (''question_1'', ''When?''), (''answer_1'', [])] ''user_story'' = Some ''Reset''
   \<and> map_of [(''user_story'', ''Reset''), (''context'', ''c''), (''question_0'', ''Who?''),
            (''answer_0'', []), (''question_1'', ''When?''), (''answer_1'', [])] ''context'' = Some ''c''
   \<and> carries [(''user_story'', ''Reset''), (''context'', ''c''), (''question_0'', ''Who?''),
            (''answer_0'', []), (''question_1'', ''When?''), (''answer_1'', [])]
           [(''Who?'', []), (''When?'', [])]
   \<and> list_all (\<lambda>qa. snd qa = []) [(''Who?'', []), (''When?'', []) :: string \<times> string]
   \<and> compose_prompt [(''user_story'', ''Reset''), (''context'', ''c''), (''question_0'', ''Who?''),
            (''answer_0'', []), (''question_1'', ''When?''), (''answer_1'', [])]
       = Inr (''Reset'', ''c'', ''User Story: Reset\<newline>\<newline>Context/Brain Dump:\<newline>c'')
   \<and> compose_prompt [(''user_story'', ''Reset''), (''context'', ''c''), (''question_0'', ''Who?''),
            (''answer_0'', []), (''question_1'', ''When?''), (''answer_1'', [])]
       = compose_prompt [(''user_story'', ''Reset''), (''context'', ''c'')]"
proof -
  let ?f = "[(''user_story'', ''Reset''), (''context'', ''c''), (''question_0'', ''Who?''),
            (''answer_0'', []), (''question_1'', ''When?''), (''answer_1'', [])]"
  have u: "map_of ?f ''user_story'' = Some ''Reset''" by simp
  have c: "map_of ?f ''context'' = Some ''c''" by simp
  have e: "list_all (\<lambda>qa. snd qa = []) [(''Who?'', []), (''When?'', []) :: string \<times> string]"
    by simp
  have b: "base_prompt ''Reset'' ''c'' = ''User Story: Reset\<newline>\<newline>Context/Brain Dump:\<newline>c''"
    by code_simp
  note t = unanswered_round_trip [OF u c carries_unanswered_example e]
  from t have 1: "compose_prompt ?f = Inr (''Reset'', ''c'', base_prompt ''Reset'' ''c'')"
    by (rule conjunct1)
  from t have 2: "compose_prompt ?f = compose_prompt [(''user_story'', ''Reset''), (''context'', ''c'')]"
    by (rule conjunct2)
  from 1 have 3: "compose_prompt ?f
       = Inr (''Reset'', ''c'', ''User Story: Reset\<newline>\<newline>Context/Brain Dump:\<newline>c'')"
    by (simp only: b)
  from u c carries_unanswered_example e 3 2 show ?thesis by (intro conjI)
qed

text \<open>
  Claim C6 as stated fails for answers that are absent: with two questions and no answer field
  the composition raises, and so differs from the composition with no prior question.
\<close>

theorem absent_answers_differ:
  "compose_prompt [(''user_story'', ''Reset''), (''context'', ''c''),
                   (''question_0'', ''Who?''), (''question_1'', ''When?'')]
     \<noteq> compose_prompt [(''user_story'', ''Reset''), (''context'', ''c'')]"
  by code_simp

section \<open>7. Properties of the request handler\<close>

text \<open>Libraries for the examples: a fixed decoder message, the identity as renderer.\<close>

definition example_libs :: libs where
  "example_libs =
     \<lparr>decode_error = (\<lambda>s. ''Expecting value''), markdown = (\<lambda>s. s), repr = (\<lambda>v. ''?'')\<rparr>"

subsection \<open>A process started without the credential\<close>

lemma index_without_model:
  "index L None req = (Inr (ApiKeyError ''ERROR: GOOGLE_API_KEY is not set.''), [])"
  by (simp add: index_def render_template_string_def)

text \<open>
  Claim C3. If the credential is absent from the environment when the module is loaded, the
  model is \<^verbatim>\<open>None\<close> for the life of the process, and every request, whatever its method and
  form, gets the fixed setup message and makes no call to the model capability.
\<close>

theorem no_credential_no_call:
  assumes "environ ''GOOGLE_API_KEY'' = None"
  shows "load_model environ backend = None
         \<and> (\<forall>req. index L (load_model environ backend) req
                     = (Inr (ApiKeyError ''ERROR: GOOGLE_API_KEY is not set.''), []))
         \<and> serve L environ backend reqs
             = replicate (length reqs) (Inr (ApiKeyError ''ERROR: GOOGLE_API_KEY is not set.''), [])"
proof -
  from assms have m: "load_model environ backend = None" by (simp add: load_model_def)
  have "map (index L None) reqs
          = replicate (length reqs) (Inr (ApiKeyError ''ERROR: GOOGLE_API_KEY is not set.''), [])"
    by (induction reqs) (simp_all add: index_without_model)
  with m show ?thesis by (simp add: serve_def index_without_model)
qed

text \<open>The theorem for an empty environment and three requests.\<close>

theorem no_credential_no_call_witness:
  "(Map.empty :: string \<rightharpoonup> string) ''GOOGLE_API_KEY'' = None
   \<and> load_model Map.empty (\<lambda>key parts. Returns ''{}'') = None
   \<and> serve example_libs Map.empty (\<lambda>key parts. Returns ''{}'')
        [\<lparr>req_method = GET, req_form = []\<rparr>,
         \<lparr>req_method = POST, req_form = [(''user_story'', ''Reset''), (''context'', ''c'')]\<rparr>,
         \<lparr>req_method = POST, req_form = []\<rparr>]
      = [(Inr (ApiKeyError ''ERROR: GOOGLE_API_KEY is not set.''), []),
         (Inr (ApiKeyError ''ERROR: GOOGLE_API_KEY is not set.''), []),
         (Inr (ApiKeyError ''ERROR: GOOGLE_API_KEY is not set.''), [])]"
proof -
  have h: "(Map.empty :: string \<rightharpoonup> string) ''GOOGLE_API_KEY'' = None" by simp
  note t = no_credential_no_call [OF h, of "\<lambda>key parts. Returns ''{}''" example_libs
      "[\<lparr>req_method = GET, req_form = []\<rparr>,
         \<lparr>req_method = POST, req_form = [(''user_story'', ''Reset''), (''context'', ''c'')]\<rparr>,
         \<lparr>req_method = POST, req_form = []\<rparr>]"]
  from t have 1: "load_model Map.empty (\<lambda>key parts. Returns ''{}'') = None" by (rule conjunct1)
  from t have 2: "serve example_libs Map.empty (\<lambda>key parts. Returns ''{}'')
        [\<lparr>req_method = GET, req_form = []\<rparr>,
         \<lparr>req_method = POST, req_form = [(''user_story'', ''Reset''), (''context'', ''c'')]\<rparr>,
         \<lparr>req_method = POST, req_form = []\<rparr>]
      = replicate (length [\<lparr>req_method = GET, req_form = []\<rparr>,
         \<lparr>req_method = POST, req_form = [(''user_story'', ''Reset''), (''context'', ''c'')]\<rparr>,
         \<lparr>req_method = POST, req_form = []\<rparr>])
          (Inr (ApiKeyError ''ERROR: GOOGLE_API_KEY is not set.''), [])"
    by (rule conjunct2 [OF conjunct2])
  have r: "replicate (length [\<lparr>req_method = GET, req_form = []\<rparr>,
         \<lparr>req_method = POST, req_form = [(''user_story'', ''Reset''), (''context'', ''c'')]\<rparr>,
         \<lparr>req_method = POST, req_form = []\<rparr>]) x = [x, x, x]" for x :: "(exn + template_args) \<times> string list list"
    by (simp add: numeral_3_eq_3)
  from 2 have 3: "serve example_libs Map.empty (\<lambda>key parts. Returns ''{}'')
        [\<lparr>req_method = GET, req_form = []\<rparr>,
         \<lparr>req_method = POST, req_form = [(''user_story'', ''Reset''), (''context'', ''c'')]\<rparr>,
         \<lparr>req_method = POST, req_form = []\<rparr>]
      = [(Inr (ApiKeyError ''ERROR: GOOGLE_API_KEY is not set.''), []),
         (Inr (ApiKeyError ''ERROR: GOOGLE_API_KEY is not set.''), []),
         (Inr (ApiKeyError ''ERROR: GOOGLE_API_KEY is not set.''), [])]"
    by (simp only: r)
  from h 1 3 show ?thesis by (intro conjI)
qed

subsection \<open>From the model's reply to the page\<close>

text \<open>
  \<open>cleaned text\<close> is the expression of line 135: the reply stripped of surrounding white
  space, then of every \<^verbatim>\<open>```json\<close>, then of every \<^verbatim>\<open>```\<close>.
\<close>

definition cleaned :: "string \<Rightarrow> string" where
  "cleaned text = py_replace ''```'' [] (py_replace ''```json'' [] (py_strip text))"

lemma get_ai_analysis_decoded:
  assumes "generate_content [SYSTEM_PROMPT, prompt] = Returns text"
    and "py_json_decode (cleaned text) = Some v"
  shows "get_ai_analysis L (Some generate_content) prompt = (v, [[SYSTEM_PROMPT, prompt]])"
  using assms by (simp add: get_ai_analysis_def json_loads_def cleaned_def)

lemma get_ai_analysis_refused:
  assumes "generate_content [SYSTEM_PROMPT, prompt] = Returns text"
    and "py_json_decode (cleaned text) = None"
  shows "get_ai_analysis L (Some generate_content) prompt
           = (error_dict (''An error occurred: '' @ decode_error L (cleaned text)),
              [[SYSTEM_PROMPT, prompt]])"
  using assms by (simp add: get_ai_analysis_def json_loads_def cleaned_def)

lemma get_ai_analysis_raised:
  assumes "generate_content [SYSTEM_PROMPT, prompt] = Raises e"
  shows "get_ai_analysis L (Some generate_content) prompt
           = (error_dict (''An error occurred: '' @ e), [[SYSTEM_PROMPT, prompt]])"
  using assms by (simp add: get_ai_analysis_def)

lemma get_ai_analysis_returned:
  assumes "generate_content [SYSTEM_PROMPT, prompt] = Returns text"
  shows "get_ai_analysis L (Some generate_content) prompt
           = (case py_json_decode (cleaned text) of
                Some v \<Rightarrow> v
              | None \<Rightarrow> error_dict (''An error occurred: '' @ decode_error L (cleaned text)),
              [[SYSTEM_PROMPT, prompt]])"
  using assms by (simp add: get_ai_analysis_def json_loads_def cleaned_def split: option.splits)

lemma index_post:
  assumes "req_method req = POST" and "compose_prompt (req_form req) = Inr (us, ctx, prompt)"
    and "get_ai_analysis L (Some generate_content) prompt = (analysis, calls)"
  shows "index L (Some generate_content) req =
           (case present_analysis L analysis of
              Inl e \<Rightarrow> (Inl e, calls)
            | Inr (html, qs) \<Rightarrow>
                (render_template_string
                   (View \<lparr>user_story = us, context_text = ctx, preview_html = html,
                          clarifying_questions = qs, api_key_error = None\<rparr>), calls))"
  using assms by (simp add: index_def)

lemma render_iterable:
  "jinja_iterable qs \<Longrightarrow>
     render_template_string
       (View \<lparr>user_story = us, context_text = ctx, preview_html = html,
              clarifying_questions = qs, api_key_error = None\<rparr>)
     = Inr (View \<lparr>user_story = us, context_text = ctx, preview_html = html,
                   clarifying_questions = qs, api_key_error = None\<rparr>)"
  by (simp add: render_template_string_def)

lemma render_not_iterable:
  "\<not> jinja_iterable qs \<Longrightarrow>
     render_template_string
       (View \<lparr>user_story = us, context_text = ctx, preview_html = html,
              clarifying_questions = qs, api_key_error = None\<rparr>)
     = Inl TypeError"
  by (simp add: render_template_string_def)

lemma present_error_key:
  assumes "dict_lookup kvs ''error'' = Some v"
  shows "present_analysis L (JObject kvs)
           = Inr (''<p class='error'>Error: '' @ py_format L v @ ''</p>'', JArray [])"
  using assms by (simp add: present_analysis_def)

text \<open>
  Claim C9. When the call succeeds and the cleaned reply decodes to a JSON object with a key
  \<^verbatim>\<open>error\<close>, the handler shows the error paragraph built from that key's value, not a
  ticket draft, and no question.
\<close>

theorem error_key_reported:
  assumes "req_method req = POST" and "compose_prompt (req_form req) = Inr (us, ctx, prompt)"
    and "generate_content [SYSTEM_PROMPT, prompt] = Returns text"
    and "py_json_decode (cleaned text) = Some (JObject kvs)"
    and "dict_lookup kvs ''error'' = Some v"
  shows "index L (Some generate_content) req =
           (Inr (View \<lparr>user_story = us, context_text = ctx,
                       preview_html = ''<p class='error'>Error: '' @ py_format L v @ ''</p>'',
                       clarifying_questions = JArray [], api_key_error = None\<rparr>),
            [[SYSTEM_PROMPT, prompt]])"
proof -
  from assms(3,4)
  have g: "get_ai_analysis L (Some generate_content) prompt = (JObject kvs, [[SYSTEM_PROMPT, prompt]])"
    by (rule get_ai_analysis_decoded)
  show ?thesis
    unfolding index_post [OF assms(1,2) g] present_error_key [OF assms(5)]
    by (simp add: render_template_string_def)
qed

lemma scenario_form:
  "compose_prompt [(''user_story'', ''As a user, I want password reset''), (''context'', [])]
     = Inr (''As a user, I want password reset'', [],
            ''User Story: As a user, I want password reset\<newline>\<newline>Context/Brain Dump:\<newline>'')"
  by code_simp

text \<open>The theorem at a reply that has both an \<^verbatim>\<open>error\<close> key and a draft.\<close>

theorem error_key_reported_witness:
  "req_method \<lparr>req_method = POST,
      req_form = [(''user_story'', ''As a user, I want password reset''), (''context'', [])]\<rparr> = POST
   \<and> py_json_decode (cleaned ''{\"error\": \"quota exceeded\", \"ticket_draft\": \"x\"}'')
       = Some (JObject [(''error'', JString ''quota exceeded''), (''ticket_draft'', JString ''x'')])
   \<and> dict_lookup [(''error'', JString ''quota exceeded''), (''ticket_draft'', JString ''x'')] ''error''
       = Some (JString ''quota exceeded'')
   \<and> index example_libs
         (Some (\<lambda>parts. Returns ''{\"error\": \"quota exceeded\", \"ticket_draft\": \"x\"}''))
         \<lparr>req_method = POST,
          req_form = [(''user_story'', ''As a user, I want password reset''), (''context'', [])]\<rparr>
       = (Inr (View \<lparr>user_story = ''As a user, I want password reset'', context_text = [],
                        preview_html = ''<p class='error'>Error: quota exceeded</p>'',
                        clarifying_questions = JArray [], api_key_error = None\<rparr>),
          [[SYSTEM_PROMPT,
            ''User Story: As a user, I want password reset\<newline>\<newline>Context/Brain Dump:\<newline>'']])"
proof -
  let ?req = "\<lparr>req_method = POST,
      req_form = [(''user_story'', ''As a user, I want password reset''), (''context'', [])]\<rparr>"
  let ?gc = "\<lambda>parts :: string list. Returns ''{\"error\": \"quota exceeded\", \"ticket_draft\": \"x\"}''"
  let ?p = "''User Story: As a user, I want password reset\<newline>\<newline>Context/Brain Dump:\<newline>''"
  have m: "req_method ?req = POST" by simp
  have c: "compose_prompt (req_form ?req) = Inr (''As a user, I want password reset'', [], ?p)"
    using scenario_form by simp
  have r: "?gc [SYSTEM_PROMPT, ?p] = Returns ''{\"error\": \"quota exceeded\", \"ticket_draft\": \"x\"}''"
    by simp
  have d: "py_json_decode (cleaned ''{\"error\": \"quota exceeded\", \"ticket_draft\": \"x\"}'')
       = Some (JObject [(''error'', JString ''quota exceeded''), (''ticket_draft'', JString ''x'')])"
    by code_simp
  have k: "dict_lookup [(''error'', JString ''quota exceeded''), (''ticket_draft'', JString ''x'')] ''error''
       = Some (JString ''quota exceeded'')"
    by code_simp
  have f: "py_format example_libs (JString ''quota exceeded'') = ''quota exceeded''"
    by (simp add: py_format_def)
  have "index example_libs (Some ?gc) ?req =
           (Inr (View \<lparr>user_story = ''As a user, I want password reset'', context_text = [],
                       preview_html = ''<p class='error'>Error: '' @ py_format example_libs (JString ''quota exceeded'') @ ''</p>'',
                       clarifying_questions = JArray [], api_key_error = None\<rparr>),
            [[SYSTEM_PROMPT, ?p]])"
    by (rule error_key_reported [OF m c r d k])
  then have i: "index example_libs (Some ?gc) ?req =
           (Inr (View \<lparr>user_story = ''As a user, I want password reset'', context_text = [],
                       preview_html = ''<p class='error'>Error: quota exceeded</p>'',
                       clarifying_questions = JArray [], api_key_error = None\<rparr>),
            [[SYSTEM_PROMPT, ?p]])"
    by (simp only: f append.simps)
  from m d k i show ?thesis by (intro conjI)
qed

subsection \<open>Missing keys\<close>

text \<open>
  The draft shown and the questions shown, in the words of the specification: the text of
  \<^verbatim>\<open>ticket_draft\<close> or the empty text, the value of \<^verbatim>\<open>clarifying_questions\<close> or the
  empty sequence.
\<close>

definition text_or_absent :: "json option \<Rightarrow> bool" where
  "text_or_absent x = (case x of None \<Rightarrow> True | Some (JString s) \<Rightarrow> True | Some _ \<Rightarrow> False)"

definition draft_text :: "(string \<times> json) list \<Rightarrow> string" where
  "draft_text kvs = (case dict_lookup kvs ''ticket_draft'' of Some (JString s) \<Rightarrow> s | _ \<Rightarrow> [])"

definition shown_questions :: "(string \<times> json) list \<Rightarrow> json" where
  "shown_questions kvs =
     (case dict_lookup kvs ''clarifying_questions'' of None \<Rightarrow> JArray [] | Some qs \<Rightarrow> qs)"

lemma present_defaults:
  assumes "dict_lookup kvs ''error'' = None" and "text_or_absent (dict_lookup kvs ''ticket_draft'')"
  shows "present_analysis L (JObject kvs) = Inr (markdown L (draft_text kvs), shown_questions kvs)"
proof (cases "dict_lookup kvs ''ticket_draft''")
  case None
  with assms(1) show ?thesis
    by (simp add: present_analysis_def markdown_markdown_def draft_text_def shown_questions_def)
next
  case (Some v)
  with assms(2) obtain s where "v = JString s"
    by (cases v) (simp_all add: text_or_absent_def)
  with Some assms(1) show ?thesis
    by (simp add: present_analysis_def markdown_markdown_def draft_text_def shown_questions_def)
qed

lemma map_of_filter_other_key:
  "k \<noteq> k' \<Longrightarrow> map_of (filter (\<lambda>kv. fst kv \<noteq> k') xs) k = map_of xs k"
  by (induction xs) auto

lemma dict_lookup_without_key:
  "k \<noteq> k' \<Longrightarrow> dict_lookup (filter (\<lambda>kv. fst kv \<noteq> k') kvs) k = dict_lookup kvs k"
  by (simp add: dict_lookup_def rev_filter map_of_filter_other_key)

lemma present_ignores_open_questions:
  "present_analysis L (JObject (filter (\<lambda>kv. fst kv \<noteq> ''open_questions'') kvs))
     = present_analysis L (JObject kvs)"
proof -
  let ?kvs' = "filter (\<lambda>kv. fst kv \<noteq> ''open_questions'') kvs"
  have a: "py_contains ''error'' (JObject ?kvs') = py_contains ''error'' (JObject kvs)"
    by (simp add: dict_lookup_without_key)
  have b: "py_getitem (JObject ?kvs') ''error'' = py_getitem (JObject kvs) ''error''"
    by (simp add: dict_lookup_without_key)
  have c: "py_get (JObject ?kvs') ''ticket_draft'' d = py_get (JObject kvs) ''ticket_draft'' d" for d
    by (simp add: dict_lookup_without_key)
  have e: "py_get (JObject ?kvs') ''clarifying_questions'' d
             = py_get (JObject kvs) ''clarifying_questions'' d" for d
    by (simp add: dict_lookup_without_key)
  show ?thesis unfolding present_analysis_def a b c e ..
qed

text \<open>
  Claim C5, as amended. For every reply that decodes to a JSON object without the key
  \<^verbatim>\<open>error\<close>, whose \<^verbatim>\<open>ticket_draft\<close> is a text or absent and whose
  \<^verbatim>\<open>clarifying_questions\<close> is a list, a text, an object or absent: no exception is raised,
  an absent \<^verbatim>\<open>ticket_draft\<close> is rendered as the empty text and an absent
  \<^verbatim>\<open>clarifying_questions\<close> is the empty sequence. The key \<^verbatim>\<open>open_questions\<close> is never
  read: removing it changes nothing.
\<close>

theorem missing_keys_defaulted:
  assumes "req_method req = POST" and "compose_prompt (req_form req) = Inr (us, ctx, prompt)"
    and "generate_content [SYSTEM_PROMPT, prompt] = Returns text"
    and "py_json_decode (cleaned text) = Some (JObject kvs)"
    and "dict_lookup kvs ''error'' = None"
    and "text_or_absent (dict_lookup kvs ''ticket_draft'')"
    and "jinja_iterable (shown_questions kvs)"
  shows "index L (Some generate_content) req =
           (Inr (View \<lparr>user_story = us, context_text = ctx,
                       preview_html = markdown L (draft_text kvs),
                       clarifying_questions = shown_questions kvs, api_key_error = None\<rparr>),
            [[SYSTEM_PROMPT, prompt]])
         \<and> present_analysis L (JObject (filter (\<lambda>kv. fst kv \<noteq> ''open_questions'') kvs))
             = present_analysis L (JObject kvs)"
proof -
  from assms(3,4)
  have g: "get_ai_analysis L (Some generate_content) prompt = (JObject kvs, [[SYSTEM_PROMPT, prompt]])"
    by (rule get_ai_analysis_decoded)
  have "index L (Some generate_content) req =
           (Inr (View \<lparr>user_story = us, context_text = ctx,
                       preview_html = markdown L (draft_text kvs),
                       clarifying_questions = shown_questions kvs, api_key_error = None\<rparr>),
            [[SYSTEM_PROMPT, prompt]])"
    unfolding index_post [OF assms(1,2) g] present_defaults [OF assms(5,6)]
    by (simp add: render_iterable [OF assms(7)])
  with present_ignores_open_questions show ?thesis by simp
qed

text \<open>
  The theorem at Scenario E: a reply with \<^verbatim>\<open>ticket_draft\<close> and
  \<^verbatim>\<open>clarifying_questions\<close> and without \<^verbatim>\<open>open_questions\<close>.
\<close>

theorem missing_keys_defaulted_witness:
  "req_method \<lparr>req_method = POST,
      req_form = [(''user_story'', ''As a user, I want password reset''), (''context'', [])]\<rparr> = POST
   \<and> py_json_decode (cleaned ''{\"ticket_draft\": \"User Story\", \"clarifying_questions\": [\"Who?\"]}'')
       = Some (JObject [(''ticket_draft'', JString ''User Story''),
                        (''clarifying_questions'', JArray [JString ''Who?''])])
   \<and> dict_lookup [(''ticket_draft'', JString ''User Story''),
                    (''clarifying_questions'', JArray [JString ''Who?''])] ''error'' = None
   \<and> text_or_absent (dict_lookup [(''ticket_draft'', JString ''User Story''),
                    (''clarifying_questions'', JArray [JString ''Who?''])] ''ticket_draft'')
   \<and> jinja_iterable (shown_questions [(''ticket_draft'', JString ''User Story''),
                    (''clarifying_questions'', JArray [JString ''Who?''])])
   \<and> index example_libs
         (Some (\<lambda>parts. Returns ''{\"ticket_draft\": \"User Story\", \"clarifying_questions\": [\"Who?\"]}''))
         \<lparr>req_method = POST,
          req_form = [(''user_story'', ''As a user, I want password reset''), (''context'', [])]\<rparr>
       = (Inr (View \<lparr>user_story = ''As a user, I want password reset'', context_text = [],
                        preview_html = ''User Story'',
                        clarifying_questions = JArray [JString ''Who?''], api_key_error = None\<rparr>),
          [[SYSTEM_PROMPT,
            ''User Story: As a user, I want password reset\<newline>\<newline>Context/Brain Dump:\<newline>'']])"
proof -
  let ?req = "\<lparr>req_method = POST,
      req_form = [(''user_story'', ''As a user, I want password reset''), (''context'', [])]\<rparr>"
  let ?reply = "''{\"ticket_draft\": \"User Story\", \"clarifying_questions\": [\"Who?\"]}''"
  let ?gc = "\<lambda>parts :: string list. Returns ?reply"
  let ?p = "''User Story: As a user, I want password reset\<newline>\<newline>Context/Brain Dump:\<newline>''"
  let ?kvs = "[(''ticket_draft'', JString ''User Story''),
               (''clarifying_questions'', JArray [JString ''Who?''])]"
  have m: "req_method ?req = POST" by simp
  have c: "compose_prompt (req_form ?req) = Inr (''As a user, I want password reset'', [], ?p)"
    using scenario_form by simp
  have r: "?gc [SYSTEM_PROMPT, ?p] = Returns ?reply"
    by simp
  have d: "py_json_decode (cleaned ?reply) = Some (JObject ?kvs)"
    by code_simp
  have k: "dict_lookup ?kvs ''error'' = None" by code_simp
  have t: "text_or_absent (dict_lookup ?kvs ''ticket_draft'')" by code_simp
  have i: "jinja_iterable (shown_questions ?kvs)" by code_simp
  have v: "markdown example_libs (draft_text ?kvs) = ''User Story''" by code_simp
  have q: "shown_questions ?kvs = JArray [JString ''Who?'']" by code_simp
  note th = missing_keys_defaulted [OF m c r d k t i, of example_libs]
  from th have "index example_libs (Some ?gc) ?req =
           (Inr (View \<lparr>user_story = ''As a user, I want password reset'', context_text = [],
                       preview_html = markdown example_libs (draft_text ?kvs),
                       clarifying_questions = shown_questions ?kvs, api_key_error = None\<rparr>),
            [[SYSTEM_PROMPT, ?p]])"
    by (rule conjunct1)
  then have x: "index example_libs (Some ?gc) ?req =
           (Inr (View \<lparr>user_story = ''As a user, I want password reset'', context_text = [],
                       preview_html = ''User Story'',
                       clarifying_questions = JArray [JString ''Who?''], api_key_error = None\<rparr>),
            [[SYSTEM_PROMPT, ?p]])"
    by (simp only: v q)
  from m d k t i x show ?thesis by (intro conjI)
qed

text \<open>
  The hypothesis on \<^verbatim>\<open>clarifying_questions\<close> cannot be dropped: the template loops over the
  value, and with \<^verbatim>\<open>null\<close>, a number or a boolean there the rendering of line 186 raises
  \<^verbatim>\<open>TypeError\<close>, which leaves the handler.
\<close>

lemma questions_not_iterable_raise:
  assumes "req_method req = POST" and "compose_prompt (req_form req) = Inr (us, ctx, prompt)"
    and "generate_content [SYSTEM_PROMPT, prompt] = Returns text"
    and "py_json_decode (cleaned text) = Some (JObject kvs)"
    and "dict_lookup kvs ''error'' = None"
    and "text_or_absent (dict_lookup kvs ''ticket_draft'')"
    and "\<not> jinja_iterable (shown_questions kvs)"
  shows "index L (Some generate_content) req = (Inl TypeError, [[SYSTEM_PROMPT, prompt]])"
proof -
  from assms(3,4)
  have g: "get_ai_analysis L (Some generate_content) prompt = (JObject kvs, [[SYSTEM_PROMPT, prompt]])"
    by (rule get_ai_analysis_decoded)
  show ?thesis
    unfolding index_post [OF assms(1,2) g] present_defaults [OF assms(5,6)]
    by (simp add: render_not_iterable [OF assms(7)])
qed

lemma null_questions_raise:
  "fst (index example_libs
          (Some (\<lambda>parts. Returns ''{\"ticket_draft\":\"x\",\"clarifying_questions\":null}''))
          \<lparr>req_method = POST,
           req_form = [(''user_story'', ''As a user, I want password reset''), (''context'', [])]\<rparr>)
     = Inl TypeError"
  by code_simp

text \<open>
  Claim C5 as stated fails at a reply that is valid JSON, has none of the three keys, and has
  the key \<^verbatim>\<open>error\<close>: the page shows the error paragraph, not the rendering of the default
  draft.
\<close>

theorem error_key_not_defaulted:
  "py_json_decode (cleaned ''{\"error\": \"model overloaded\"}'')
     = Some (JObject [(''error'', JString ''model overloaded'')])
   \<and> fst (index example_libs (Some (\<lambda>parts. Returns ''{\"error\": \"model overloaded\"}''))
         \<lparr>req_method = POST,
          req_form = [(''user_story'', ''As a user, I want password reset''), (''context'', [])]\<rparr>)
       = Inr (View \<lparr>user_story = ''As a user, I want password reset'', context_text = [],
                       preview_html = ''<p class='error'>Error: model overloaded</p>'',
                       clarifying_questions = JArray [], api_key_error = None\<rparr>)
   \<and> markdown example_libs [] \<noteq> ''<p class='error'>Error: model overloaded</p>''"
  by code_simp

subsection \<open>Failures and the handler's boundary\<close>

text \<open>
  A failed call and a reply that is not JSON are turned into the error dictionary by
  \<^verbatim>\<open>get_ai_analysis\<close> and shown as the error paragraph, with the cause's text.
\<close>

lemma call_failure_reported:
  assumes "req_method req = POST" and "compose_prompt (req_form req) = Inr (us, ctx, prompt)"
    and "generate_content [SYSTEM_PROMPT, prompt] = Raises e"
  shows "index L (Some generate_content) req =
           (Inr (View \<lparr>user_story = us, context_text = ctx,
                       preview_html = ''<p class='error'>Error: An error occurred: '' @ e @ ''</p>'',
                       clarifying_questions = JArray [], api_key_error = None\<rparr>),
            [[SYSTEM_PROMPT, prompt]])"
proof -
  from assms(3)
  have g: "get_ai_analysis L (Some generate_content) prompt
             = (error_dict (''An error occurred: '' @ e), [[SYSTEM_PROMPT, prompt]])"
    by (rule get_ai_analysis_raised)
  show ?thesis
    unfolding index_post [OF assms(1,2) g]
    by (simp add: error_dict_def present_analysis_def dict_lookup_def py_format_def
          render_template_string_def)
qed

lemma refused_reply_reported:
  assumes "req_method req = POST" and "compose_prompt (req_form req) = Inr (us, ctx, prompt)"
    and "generate_content [SYSTEM_PROMPT, prompt] = Returns text"
    and "py_json_decode (cleaned text) = None"
  shows "index L (Some generate_content) req =
           (Inr (View \<lparr>user_story = us, context_text = ctx,
                       preview_html = ''<p class='error'>Error: An error occurred: ''
                                      @ decode_error L (cleaned text) @ ''</p>'',
                       clarifying_questions = JArray [], api_key_error = None\<rparr>),
            [[SYSTEM_PROMPT, prompt]])"
proof -
  from assms(3,4)
  have g: "get_ai_analysis L (Some generate_content) prompt
             = (error_dict (''An error occurred: '' @ decode_error L (cleaned text)),
                [[SYSTEM_PROMPT, prompt]])"
    by (rule get_ai_analysis_refused)
  show ?thesis
    unfolding index_post [OF assms(1,2) g]
    by (simp add: error_dict_def present_analysis_def dict_lookup_def py_format_def
          render_template_string_def)
qed

lemma present_array: "present_analysis L (JArray []) = Inl AttributeError"
  by (simp add: present_analysis_def)

text \<open>
  Claim C1, at the input where the code departs from it. The reply \<^verbatim>\<open>[]\<close> is valid JSON;
  \<^verbatim>\<open>get_ai_analysis\<close> returns the list, the test \<^verbatim>\<open>"error" in analysis\<close> is false, and
  \<^verbatim>\<open>analysis.get\<close> raises \<^verbatim>\<open>AttributeError\<close> outside every \<^verbatim>\<open>try\<close>: the exception
  leaves the handler.
\<close>

theorem json_array_reply_escapes:
  "index L (Some (\<lambda>parts. Returns ''[]''))
     \<lparr>req_method = POST,
      req_form = [(''user_story'', ''As a user, I want password reset''), (''context'', [])]\<rparr>
   = (Inl AttributeError,
      [[SYSTEM_PROMPT,
        ''User Story: As a user, I want password reset\<newline>\<newline>Context/Brain Dump:\<newline>'']])"
proof -
  let ?req = "\<lparr>req_method = POST,
      req_form = [(''user_story'', ''As a user, I want password reset''), (''context'', [])]\<rparr>"
  let ?p = "''User Story: As a user, I want password reset\<newline>\<newline>Context/Brain Dump:\<newline>''"
  have m: "req_method ?req = POST" by simp
  have c: "compose_prompt (req_form ?req) = Inr (''As a user, I want password reset'', [], ?p)"
    using scenario_form by simp
  have d: "py_json_decode (cleaned ''[]'') = Some (JArray [])" by code_simp
  have g: "get_ai_analysis L (Some (\<lambda>parts. Returns ''[]'')) ?p = (JArray [], [[SYSTEM_PROMPT, ?p]])"
    by (rule get_ai_analysis_decoded [OF _ d]) simp
  show ?thesis
    unfolding index_post [OF m c g] present_array by simp
qed

section \<open>8. Properties of the cleaning of the reply\<close>

subsection \<open>Replacement and trimming\<close>

lemma py_replace_Nil: "old \<noteq> [] \<Longrightarrow> py_replace old new [] = []"
  by (subst py_replace.simps) simp

lemma py_replace_match:
  "old \<noteq> [] \<Longrightarrow> prefix old s \<Longrightarrow>
     py_replace old new s = new @ py_replace old new (drop (length old) s)"
  by (subst py_replace.simps) auto

lemma py_replace_skip:
  "old \<noteq> [] \<Longrightarrow> \<not> prefix old (c # cs) \<Longrightarrow>
     py_replace old new (c # cs) = c # py_replace old new cs"
  by (subst py_replace.simps) simp

lemma py_replace_absent:
  "old \<noteq> [] \<Longrightarrow> \<not> py_str_in old s \<Longrightarrow> py_replace old new s = s"
  by (induction s) (simp_all add: py_replace_Nil py_replace_skip)

lemma py_str_in_mono: "py_str_in (p @ q) s \<Longrightarrow> py_str_in p s"
  unfolding py_str_in_sublist
  by (metis sublist_append_rightI sublist_order.order_trans)

lemma strip_leading_suffix: "suffix (strip_leading ws s) s"
proof (induction ws s rule: strip_leading.induct)
  case (1 ws s)
  show ?case
  proof (cases "find (\<lambda>w. w \<noteq> [] \<and> prefix w s) ws")
    case None
    then show ?thesis by (subst strip_leading.simps) simp
  next
    case (Some w)
    from "1.IH" [OF Some] have "suffix (strip_leading ws (drop (length w) s)) (drop (length w) s)" .
    then have "suffix (strip_leading ws (drop (length w) s)) s"
      by (rule suffix_order.order_trans) (rule suffix_drop)
    with Some show ?thesis by (subst strip_leading.simps) simp
  qed
qed

lemma py_strip_sublist: "sublist (py_strip s) s"
proof -
  have "suffix (py_lstrip s) s" by (simp add: py_lstrip_def strip_leading_suffix)
  moreover have "prefix (py_rstrip t) t" for t
  proof -
    have "suffix (strip_leading (map rev py_whitespace) (rev t)) (rev t)"
      by (rule strip_leading_suffix)
    then show ?thesis by (simp add: py_rstrip_def suffix_to_prefix)
  qed
  ultimately show ?thesis
    unfolding py_strip_def
    by (meson prefix_imp_sublist suffix_imp_sublist sublist_order.order_trans)
qed

lemma fence_free_strip: "\<not> py_str_in p s \<Longrightarrow> \<not> py_str_in p (py_strip s)"
  unfolding py_str_in_sublist
  using py_strip_sublist sublist_order.order_trans by blast

text \<open>
  A character that does not occur in \<open>old\<close> separates the replacements on its two sides.
\<close>

lemma prefix_before_separator:
  assumes "prefix old (a @ x # b)" and "x \<notin> set old"
  shows "prefix old a"
proof -
  from assms(1) have "prefix old a \<or> (\<exists>us. old = a @ us \<and> prefix us (x # b))"
    by (simp add: prefix_append)
  then show ?thesis
  proof
    assume "prefix old a" then show ?thesis .
  next
    assume "\<exists>us. old = a @ us \<and> prefix us (x # b)"
    then obtain us where o: "old = a @ us" and p: "prefix us (x # b)" by blast
    show ?thesis
    proof (cases us)
      case Nil
      with o show ?thesis by simp
    next
      case (Cons u us')
      with p have "u = x" by simp
      with o Cons assms(2) show ?thesis by simp
    qed
  qed
qed

lemma py_replace_append_separator:
  assumes "old \<noteq> []" and "x \<notin> set old"
  shows "py_replace old new (a @ x # b) = py_replace old new a @ x # py_replace old new b"
proof (induction a rule: length_induct)
  case (1 a)
  show ?case
  proof (cases a)
    case Nil
    from assms have "\<not> prefix old (x # b)" by (cases old) auto
    with assms(1) Nil show ?thesis by (simp add: py_replace_skip py_replace_Nil)
  next
    case (Cons c cs)
    show ?thesis
    proof (cases "prefix old (a @ x # b)")
      case True
      from True assms(2) have pa: "prefix old a" by (rule prefix_before_separator)
      then have le: "length old \<le> length a" by (rule prefix_length_le)
      with assms(1) Cons have "length (drop (length old) a) < length a" by simp
      with 1 have ih: "py_replace old new (drop (length old) a @ x # b)
          = py_replace old new (drop (length old) a) @ x # py_replace old new b" by blast
      from le have d: "drop (length old) (a @ x # b) = drop (length old) a @ x # b" by simp
      show ?thesis
        by (simp only: py_replace_match [OF assms(1) True] py_replace_match [OF assms(1) pa]
              d ih append_assoc)
    next
      case False
      then have na: "\<not> prefix old a" by (auto simp: prefix_def)
      from False Cons have n1: "\<not> prefix old (c # (cs @ x # b))" by simp
      from na Cons have n2: "\<not> prefix old (c # cs)" by simp
      from 1 Cons have ih: "py_replace old new (cs @ x # b)
          = py_replace old new cs @ x # py_replace old new b" by simp
      show ?thesis
        unfolding Cons append_Cons
        by (simp only: py_replace_skip [OF assms(1) n1] py_replace_skip [OF assms(1) n2] ih
              append_Cons)
    qed
  qed
qed

text \<open>A replacement by the empty text only deletes.\<close>

lemma replace_deletes: "old \<noteq> [] \<Longrightarrow> subseq (py_replace old [] s) s"
proof (induction s rule: length_induct)
  case (1 s)
  show ?case
  proof (cases s)
    case Nil
    with 1 show ?thesis by (simp add: py_replace_Nil)
  next
    case (Cons x xs)
    show ?thesis
    proof (cases "prefix old s")
      case True
      with 1 have e: "py_replace old [] s = py_replace old [] (drop (length old) s)"
        using py_replace_match [of old s "[]"] by simp
      have "length (drop (length old) s) < length s" using Cons 1(2) by simp
      with 1 have "subseq (py_replace old [] (drop (length old) s)) (drop (length old) s)"
        by blast
      moreover have "subseq (drop (length old) s) s"
        by (metis append_take_drop_id list_emb_append2 subseq_order.order_refl)
      ultimately show ?thesis unfolding e by (rule subseq_order.order_trans)
    next
      case False
      with Cons 1(2) have r: "py_replace old [] s = x # py_replace old [] xs"
        using py_replace_skip [of old x xs "[]"] by simp
      from 1 Cons have "subseq (py_replace old [] xs) xs" by simp
      with r Cons show ?thesis by simp
    qed
  qed
qed

text \<open>\<open>remove_fences\<close> is the pair of replacements of line 135, without the trimming.\<close>

definition remove_fences :: "string \<Rightarrow> string" where
  "remove_fences s = py_replace ''```'' [] (py_replace ''```json'' [] s)"

lemma cleaned_remove_fences: "cleaned text = remove_fences (py_strip text)"
  by (simp add: cleaned_def remove_fences_def)

lemma remove_fences_fence: "remove_fences ''```'' = []"
  by code_simp

lemma remove_fences_Nil: "remove_fences [] = []"
  by (simp add: remove_fences_def py_replace_Nil)

lemma remove_fences_separator:
  "x \<notin> set ''```json'' \<Longrightarrow> remove_fences (a @ x # b) = remove_fences a @ x # remove_fences b"
  by (simp add: remove_fences_def py_replace_append_separator)

lemma remove_fences_deletes: "subseq (remove_fences s) s"
  unfolding remove_fences_def
  by (rule subseq_order.order_trans [OF replace_deletes replace_deletes]) simp_all

subsection \<open>The decoder ignores JSON white space around the document\<close>

text \<open>
  The white space of the JSON grammar is the space, the tab, the line feed and the carriage
  return. What the decoder reads from a text it reads from the text followed by such a
  character, with the character left over: it ends no token and starts none. So a document
  decodes to the same value, or is refused, with and without white space around it.
\<close>

lemma json_ws_cases:
  "json_ws c \<Longrightarrow> c = CHR 0x20 \<or> c = CHR 0x09 \<or> c = CHR 0x0A \<or> c = CHR 0x0D"
  by (auto simp: json_ws_def)

lemma json_ws_not_digit: "json_ws c \<Longrightarrow> \<not> is_digit c"
  by (auto dest!: json_ws_cases simp: is_digit_def)

lemma json_ws_not_hex: "json_ws c \<Longrightarrow> hex_val c = None"
  by (auto dest!: json_ws_cases simp: hex_val_def)

lemma json_ws_no_escape: "json_ws c \<Longrightarrow> unescape c = None"
  by (auto dest!: json_ws_cases simp: unescape_def)

lemma takeWhile_snoc_stop: "\<not> P x \<Longrightarrow> takeWhile P (xs @ [x]) = takeWhile P xs"
  by (induction xs) simp_all

lemma dropWhile_snoc_stop: "\<not> P x \<Longrightarrow> dropWhile P (xs @ [x]) = dropWhile P xs @ [x]"
  by (induction xs) simp_all

lemma hex4_snoc:
  assumes "hex_val c = None"
  shows "hex4 (s @ [c]) = map_option (\<lambda>(u, r). (u, r @ [c])) (hex4 s)"
proof (cases s)
  case Nil
  then show ?thesis by (simp add: hex4_def)
next
  case s1: (Cons a1 t1)
  show ?thesis
  proof (cases t1)
    case Nil
    with s1 show ?thesis by (simp add: hex4_def)
  next
    case s2: (Cons a2 t2)
    show ?thesis
    proof (cases t2)
      case Nil
      with s1 s2 show ?thesis by (simp add: hex4_def)
    next
      case s3: (Cons a3 t3)
      show ?thesis
      proof (cases t3)
        case Nil
        with s1 s2 s3 assms show ?thesis by (simp add: hex4_def split: option.splits)
      next
        case (Cons a4 t4)
        with s1 s2 s3 show ?thesis by (simp add: hex4_def split: option.splits)
      qed
    qed
  qed
qed

lemma join_surrogate_snoc:
  assumes "json_ws c"
  shows "join_surrogate u (r @ [c]) = map_option (\<lambda>(cp, q). (cp, q @ [c])) (join_surrogate u r)"
proof (cases "0xD800 \<le> u \<and> u \<le> 0xDBFF")
  case False
  then show ?thesis by (auto simp: join_surrogate_def)
next
  case hi: True
  from assms have cu: "c \<noteq> CHR ''u''" by (auto dest!: json_ws_cases)
  show ?thesis
  proof (cases r)
    case Nil
    with hi show ?thesis by (simp add: join_surrogate_def)
  next
    case c1: (Cons b r0)
    show ?thesis
    proof (cases r0)
      case Nil
      with hi c1 cu show ?thesis by (simp add: join_surrogate_def)
    next
      case c2: (Cons v r1)
      show ?thesis
      proof (cases "b = CHR 0x5C \<and> v = CHR ''u''")
        case False
        with hi c1 c2 show ?thesis by (auto simp: join_surrogate_def)
      next
        case esc: True
        note h = hex4_snoc [OF json_ws_not_hex [OF assms], of r1]
        show ?thesis
        proof (cases "hex4 r1")
          case None
          with hi c1 c2 esc h show ?thesis by (simp add: join_surrogate_def)
        next
          case (Some p)
          obtain u2 r2 where "p = (u2, r2)" by (cases p)
          with Some hi c1 c2 esc h show ?thesis by (simp add: join_surrogate_def)
        qed
      qed
    qed
  qed
qed

lemma scanstring_ws: "json_ws c \<Longrightarrow> scanstring [c] = None"
  by (auto dest!: json_ws_cases)

lemma scanstring_snoc:
  assumes "json_ws c"
  shows "scanstring (s @ [c]) = map_option (\<lambda>(x, r). (x, r @ [c])) (scanstring s)"
proof (induction s rule: scanstring.induct)
  case 1
  from scanstring_ws [OF assms] show ?case by simp
next
  case (2 a cs)
  show ?case
  proof (cases "a = CHR 0x22")
    case True
    then show ?thesis by simp
  next
    case nq: False
    show ?thesis
    proof (cases "a = CHR 0x5C")
      case bs: True
      show ?thesis
      proof (cases cs)
        case Nil
        with nq bs json_ws_no_escape [OF assms] assms show ?thesis
          by (auto dest!: json_ws_cases)
      next
        case cs: (Cons e es)
        show ?thesis
        proof (cases "e = CHR ''u''")
          case u: True
          note h = hex4_snoc [OF json_ws_not_hex [OF assms], of es]
          show ?thesis
          proof (cases "hex4 es")
            case None
            with nq bs cs u h show ?thesis by simp
          next
            case (Some p)
            obtain n r1 where p: "p = (n, r1)" by (cases p)
            note j = join_surrogate_snoc [OF assms, of n r1]
            show ?thesis
            proof (cases "join_surrogate n r1")
              case None
              with nq bs cs u h Some p j show ?thesis by simp
            next
              case sj: (Some q)
              obtain cp r2 where q: "q = (cp, r2)" by (cases q)
              from "2.IH"(1) [OF nq bs cs u Some [unfolded p] refl sj [unfolded q] refl]
              have ih: "scanstring (r2 @ [c]) = map_option (\<lambda>(x, r). (x, r @ [c])) (scanstring r2)" .
              from nq bs cs u h Some p j sj q ih show ?thesis
                by (cases "scanstring r2") auto
            qed
          qed
        next
          case nu: False
          show ?thesis
          proof (cases "unescape e")
            case None
            with nq bs cs nu show ?thesis by simp
          next
            case (Some ch)
            from "2.IH"(2) [OF nq bs cs nu Some]
            have ih: "scanstring (es @ [c]) = map_option (\<lambda>(x, r). (x, r @ [c])) (scanstring es)" .
            from nq bs cs nu Some ih show ?thesis
              by (cases "scanstring es") auto
          qed
        qed
      qed
    next
      case nb: False
      show ?thesis
      proof (cases "(of_char a :: nat) < 0x20")
        case True
        with nq nb show ?thesis by simp
      next
        case ctl: False
        from "2.IH"(3) [OF nq nb ctl]
        have ih: "scanstring (cs @ [c]) = map_option (\<lambda>(x, r). (x, r @ [c])) (scanstring cs)" .
        from nq nb ctl ih show ?thesis
          by (cases "scanstring cs") auto
      qed
    qed
  qed
qed

lemma fraction_part_snoc:
  assumes "json_ws c"
  shows "fraction_part (s @ [c]) = (fst (fraction_part s), snd (fraction_part s) @ [c])"
proof -
  note nd = json_ws_not_digit [OF assms]
  from assms have dot: "c \<noteq> CHR ''.''" by (auto dest!: json_ws_cases)
  show ?thesis
  proof (cases s)
    case Nil
    show ?thesis unfolding Nil by (simp add: fraction_part_def)
  next
    case c1: (Cons p s1)
    show ?thesis
    proof (cases s1)
      case Nil
      show ?thesis unfolding c1 Nil using nd by (simp add: fraction_part_def)
    next
      case (Cons q qs)
      show ?thesis unfolding c1 Cons using nd
        by (simp add: fraction_part_def takeWhile_snoc_stop dropWhile_snoc_stop)
    qed
  qed
qed

lemma exponent_part_snoc:
  assumes "json_ws c"
  shows "exponent_part (s @ [c]) = (fst (exponent_part s), snd (exponent_part s) @ [c])"
proof -
  note nd = json_ws_not_digit [OF assms]
  from assms have ne: "c \<noteq> CHR ''e''" "c \<noteq> CHR ''E''" "c \<noteq> CHR ''+''" "c \<noteq> CHR ''-''"
    by (auto dest!: json_ws_cases)
  show ?thesis
  proof (cases s)
    case Nil
    show ?thesis unfolding Nil using ne by (simp add: exponent_part_def)
  next
    case c1: (Cons e s1)
    show ?thesis
    proof (cases "e = CHR ''e'' \<or> e = CHR ''E''")
      case False
      show ?thesis unfolding c1 using False by (simp add: exponent_part_def)
    next
      case ex: True
      show ?thesis
      proof (cases s1)
        case Nil
        show ?thesis unfolding c1 Nil using ex ne nd by (auto simp: exponent_part_def)
      next
        case c2: (Cons g s2)
        show ?thesis
        proof (cases "g = CHR ''+'' \<or> g = CHR ''-''")
          case sg: True
          show ?thesis
          proof (cases s2)
            case Nil
            show ?thesis unfolding c1 c2 Nil using ex sg nd by (auto simp: exponent_part_def)
          next
            case (Cons d s3)
            show ?thesis unfolding c1 c2 Cons using ex sg nd
              by (auto simp: exponent_part_def takeWhile_snoc_stop dropWhile_snoc_stop)
          qed
        next
          case False
          show ?thesis unfolding c1 c2 using ex False nd
            by (auto simp: exponent_part_def takeWhile_snoc_stop dropWhile_snoc_stop)
        qed
      qed
    qed
  qed
qed

lemma match_number_snoc:
  assumes "json_ws c"
  shows "match_number (s @ [c]) = map_option (\<lambda>(n, r). (n, r @ [c])) (match_number s)"
proof -
  note nd = json_ws_not_digit [OF assms]
  from assms have nm: "c \<noteq> CHR ''-''" by (auto dest!: json_ws_cases)
  define sg where "sg = (if s \<noteq> [] \<and> hd s = CHR ''-'' then [hd s] else [])"
  define s1 where "s1 = (if s \<noteq> [] \<and> hd s = CHR ''-'' then tl s else s)"
  have a: "(case s of [] \<Rightarrow> ([], s) | x # xs \<Rightarrow> if x = CHR ''-'' then ([x], xs) else ([], s)) = (sg, s1)"
    by (cases s) (simp_all add: sg_def s1_def)
  have a': "(case s @ [c] of [] \<Rightarrow> ([], s @ [c])
              | x # xs \<Rightarrow> if x = CHR ''-'' then ([x], xs) else ([], s @ [c]))
            = (sg, s1 @ [c])"
    using nm by (cases s) (simp_all add: sg_def s1_def)
  show ?thesis
  proof (cases s1)
    case Nil
    show ?thesis unfolding match_number_def a a' Nil using nd by simp
  next
    case (Cons d ds)
    show ?thesis
    proof (cases "is_digit d")
      case False
      show ?thesis unfolding match_number_def a a' Cons using False by simp
    next
      case dg: True
      define ip where "ip = (if d = CHR ''0'' then [d] else d # takeWhile is_digit ds)"
      define s2 where "s2 = (if d = CHR ''0'' then ds else dropWhile is_digit ds)"
      have b: "(if d = CHR ''0'' then ([d], ds)
                else (d # takeWhile is_digit ds, dropWhile is_digit ds)) = (ip, s2)"
        by (simp add: ip_def s2_def)
      have b': "(if d = CHR ''0'' then ([d], ds @ [c])
                 else (d # takeWhile is_digit (ds @ [c]), dropWhile is_digit (ds @ [c])))
                = (ip, s2 @ [c])"
        using nd by (simp add: ip_def s2_def takeWhile_snoc_stop dropWhile_snoc_stop)
      obtain fp s3 where f: "fraction_part s2 = (fp, s3)" by (cases "fraction_part s2") auto
      obtain ep s4 where e: "exponent_part s3 = (ep, s4)" by (cases "exponent_part s3") auto
      from fraction_part_snoc [OF assms, of s2] f
      have f': "fraction_part (s2 @ [c]) = (fp, s3 @ [c])" by simp
      from exponent_part_snoc [OF assms, of s3] e
      have e': "exponent_part (s3 @ [c]) = (ep, s4 @ [c])" by simp
      show ?thesis
        unfolding match_number_def a a' Cons
        using dg b b' f f' e e' by simp
    qed
  qed
qed

lemma prefix_snoc_other: "x \<notin> set p \<Longrightarrow> prefix p (s @ [x]) = prefix p s"
proof
  assume x: "x \<notin> set p" and p: "prefix p (s @ [x])"
  from p have "prefix p s \<or> (\<exists>us. p = s @ us \<and> prefix us [x])"
    by (simp add: prefix_append)
  then show "prefix p s"
  proof
    assume "prefix p s" then show ?thesis .
  next
    assume "\<exists>us. p = s @ us \<and> prefix us [x]"
    then obtain us where o: "p = s @ us" and u: "prefix us [x]" by blast
    from u have "us = [] \<or> us = [x]" by (cases us) auto
    with o x show ?thesis by auto
  qed
next
  assume "prefix p s" then show "prefix p (s @ [x])" by simp
qed

lemma skip_ws_snoc_Cons:
  assumes "skip_ws s = d # r"
  shows "skip_ws (s @ [c]) = d # r @ [c]"
proof -
  from assms have "dropWhile json_ws s \<noteq> []" by (simp add: skip_ws_def)
  then obtain x where "x \<in> set s" and "\<not> json_ws x"
    by (auto simp: dropWhile_eq_Nil_conv)
  then have "dropWhile json_ws (s @ [c]) = dropWhile json_ws s @ [c]"
    by (rule dropWhile_append1)
  with assms show ?thesis by (simp add: skip_ws_def)
qed

lemma skip_ws_snoc_Nil: "json_ws c \<Longrightarrow> skip_ws s = [] \<Longrightarrow> skip_ws (s @ [c]) = []"
  by (simp add: skip_ws_def dropWhile_eq_Nil_conv)

lemma skip_ws_snoc:
  "json_ws c \<Longrightarrow> skip_ws (s @ [c]) = (if skip_ws s = [] then [] else skip_ws s @ [c])"
  by (cases "skip_ws s") (simp_all add: skip_ws_snoc_Nil skip_ws_snoc_Cons)

lemma scan_once_Nil: "scan_once [] = None"
  by (simp add: scan_once.simps)

lemma parse_array_Nil: "parse_array [] = None"
  by (simp add: parse_array.simps scan_once_Nil)

lemma parse_object_Nil: "parse_object [] = None"
  by (simp add: parse_object.simps)

lemma scan_once_ws: "json_ws c \<Longrightarrow> scan_once [c] = None"
proof -
  have "scan_once [CHR 0x20] = None" "scan_once [CHR 0x09] = None"
    "scan_once [CHR 0x0A] = None" "scan_once [CHR 0x0D] = None"
    by code_simp+
  then show "json_ws c \<Longrightarrow> scan_once [c] = None"
    by (auto dest!: json_ws_cases)
qed

lemma scan_snoc:
  assumes ws: "json_ws c"
  shows "scan_once s = None \<and> scan_once (s @ [c]) = None
         \<or> (\<exists>v r. scan_once s = Some (v, r) \<and> scan_once (s @ [c]) = Some (v, r @ [c]))"
    and "parse_array s1 = None \<and> parse_array (s1 @ [c]) = None
         \<or> (\<exists>vs r. parse_array s1 = Some (vs, r) \<and> parse_array (s1 @ [c]) = Some (vs, r @ [c]))"
    and "parse_object s2 = None \<and> parse_object (s2 @ [c]) = None
         \<or> (\<exists>kvs r. parse_object s2 = Some (kvs, r)
                \<and> parse_object (s2 @ [c]) = Some (kvs, r @ [c]))"
proof (induction s and s1 and s2 rule: scan_once_parse_array_parse_object.induct)
  case (1 s)
  from ws have cq: "c \<noteq> CHR 0x22" "c \<noteq> CHR ''{''" "c \<noteq> CHR ''[''"
    by (auto dest!: json_ws_cases)
  show ?case
  proof (cases s)
    case Nil
    with scan_once_ws [OF ws] show ?thesis by (simp add: scan_once_Nil)
  next
    case s: (Cons a cs)
    consider (str) "a = CHR 0x22"
      | (obj) "a \<noteq> CHR 0x22" "a = CHR ''{''"
      | (arr) "a \<noteq> CHR 0x22" "a \<noteq> CHR ''{''" "a = CHR ''[''"
      | (other) "a \<noteq> CHR 0x22" "a \<noteq> CHR ''{''" "a \<noteq> CHR ''[''"
      by blast
    then show ?thesis
    proof cases
      case str
      have l: "scan_once s = map_option (\<lambda>(t, r). (JString t, r)) (scanstring cs)"
        using s str by (simp add: scan_once.simps)
      have r: "scan_once (s @ [c]) = map_option (\<lambda>(t, r). (JString t, r)) (scanstring (cs @ [c]))"
        using s str by (simp add: scan_once.simps)
      show ?thesis
        unfolding l r scanstring_snoc [OF ws]
        by (cases "scanstring cs") auto
    next
      case obj
      show ?thesis
      proof (cases "skip_ws cs")
        case Nil
        with s obj skip_ws_snoc_Nil [OF ws Nil] show ?thesis by (simp add: scan_once.simps)
      next
        case w: (Cons d r0)
        note w' = skip_ws_snoc_Cons [OF w, of c]
        show ?thesis
        proof (cases "d = CHR ''}''")
          case True
          with s obj w w' show ?thesis by (simp add: scan_once.simps)
        next
          case False
          have l: "scan_once s = map_option (\<lambda>(kvs, q). (JObject kvs, q)) (parse_object (d # r0))"
            using s obj w False by (simp add: scan_once.simps)
          have r: "scan_once (s @ [c])
                     = map_option (\<lambda>(kvs, q). (JObject kvs, q)) (parse_object ((d # r0) @ [c]))"
            using s obj w' False by (simp add: scan_once.simps)
          from "1.IH"(1) [OF s obj(1) obj(2) w False] show ?thesis
            unfolding l r by auto
        qed
      qed
    next
      case arr
      show ?thesis
      proof (cases "skip_ws cs")
        case Nil
        with s arr skip_ws_snoc_Nil [OF ws Nil] show ?thesis by (simp add: scan_once.simps)
      next
        case w: (Cons d r0)
        note w' = skip_ws_snoc_Cons [OF w, of c]
        show ?thesis
        proof (cases "d = CHR '']''")
          case True
          with s arr w w' show ?thesis by (simp add: scan_once.simps)
        next
          case False
          have l: "scan_once s = map_option (\<lambda>(vs, q). (JArray vs, q)) (parse_array (d # r0))"
            using s arr w False by (simp add: scan_once.simps)
          have r: "scan_once (s @ [c])
                     = map_option (\<lambda>(vs, q). (JArray vs, q)) (parse_array ((d # r0) @ [c]))"
            using s arr w' False by (simp add: scan_once.simps)
          from "1.IH"(2) [OF s arr(1) arr(2) arr(3) w False] show ?thesis
            unfolding l r by auto
        qed
      qed
    next
      case other
      have e: "scan_once u =
          (if prefix ''null'' u then Some (JNull, drop 4 u)
           else if prefix ''true'' u then Some (JBool True, drop 4 u)
           else if prefix ''false'' u then Some (JBool False, drop 5 u)
           else if prefix ''NaN'' u then Some (JNumber ''NaN'', drop 3 u)
           else if prefix ''Infinity'' u then Some (JNumber ''Infinity'', drop 8 u)
           else if prefix ''-Infinity'' u then Some (JNumber ''-Infinity'', drop 9 u)
           else map_option (\<lambda>(n, r). (JNumber n, r)) (match_number u))"
        if "u = a # us" for u us
        using that other by (subst scan_once.simps) simp
      note e1 = e [OF s]
      have st: "s @ [c] = a # (cs @ [c])" using s by simp
      from ws have p1: "prefix ''null'' (s @ [c]) = prefix ''null'' s"
        by (intro prefix_snoc_other) (auto dest!: json_ws_cases)
      from ws have p2: "prefix ''true'' (s @ [c]) = prefix ''true'' s"
        by (intro prefix_snoc_other) (auto dest!: json_ws_cases)
      from ws have p3: "prefix ''false'' (s @ [c]) = prefix ''false'' s"
        by (intro prefix_snoc_other) (auto dest!: json_ws_cases)
      from ws have p4: "prefix ''NaN'' (s @ [c]) = prefix ''NaN'' s"
        by (intro prefix_snoc_other) (auto dest!: json_ws_cases)
      from ws have p5: "prefix ''Infinity'' (s @ [c]) = prefix ''Infinity'' s"
        by (intro prefix_snoc_other) (auto dest!: json_ws_cases)
      from ws have p6: "prefix ''-Infinity'' (s @ [c]) = prefix ''-Infinity'' s"
        by (intro prefix_snoc_other) (auto dest!: json_ws_cases)
      note e2 = e [OF st, unfolded p1 p2 p3 p4 p5 p6]
      show ?thesis
      proof (cases "prefix ''null'' s \<or> prefix ''true'' s \<or> prefix ''false'' s
                    \<or> prefix ''NaN'' s \<or> prefix ''Infinity'' s \<or> prefix ''-Infinity'' s")
        case True
        then show ?thesis
          unfolding e1 e2
          using prefix_length_le [of "''null''" s] prefix_length_le [of "''true''" s]
            prefix_length_le [of "''false''" s] prefix_length_le [of "''NaN''" s]
            prefix_length_le [of "''Infinity''" s] prefix_length_le [of "''-Infinity''" s]
          by (auto split: if_splits)
      next
        case False
        then show ?thesis
          unfolding e1 e2 match_number_snoc [OF ws]
          by (cases "match_number s") auto
      qed
    qed
  qed
next
  case (2 s)
  show ?case
  proof (cases "scan_once s")
    case None
    with "2.IH"(1) have "scan_once (s @ [c]) = None" by auto
    with None show ?thesis
      by (simp add: parse_array.simps [of s] parse_array.simps [of "s @ [c]"])
  next
    case (Some p)
    obtain v r0 where p: "p = (v, r0)" by (cases p)
    with Some have so: "scan_once s = Some (v, r0)" by simp
    with "2.IH"(1) have so': "scan_once (s @ [c]) = Some (v, r0 @ [c])" by auto
    from scan_length(1) so have l0: "length r0 < length s" by blast
    then have g: "\<not> length s \<le> length r0" by simp
    from l0 have g': "\<not> length (s @ [c]) \<le> length (r0 @ [c])" by simp
    show ?thesis
    proof (cases "skip_ws r0")
      case Nil
      with so so' g g' skip_ws_snoc_Nil [OF ws Nil] show ?thesis
        by (simp add: parse_array.simps [of s] parse_array.simps [of "s @ [c]"])
    next
      case w: (Cons d r1)
      note w' = skip_ws_snoc_Cons [OF w, of c]
      show ?thesis
      proof (cases "d = CHR '']''")
        case True
        with so so' g g' w w' show ?thesis
          by (simp add: parse_array.simps [of s] parse_array.simps [of "s @ [c]"])
      next
        case nb: False
        show ?thesis
        proof (cases "d = CHR '',''")
          case False
          with so so' g g' w w' nb show ?thesis
            by (simp add: parse_array.simps [of s] parse_array.simps [of "s @ [c]"])
        next
          case cm: True
          have l: "parse_array s = map_option (\<lambda>(vs, q). (v # vs, q)) (parse_array (skip_ws r1))"
            using so g w nb cm by (simp add: parse_array.simps [of s])
          have r: "parse_array (s @ [c])
                     = map_option (\<lambda>(vs, q). (v # vs, q)) (parse_array (skip_ws (r1 @ [c])))"
            using so' g' w' nb cm by (simp add: parse_array.simps [of "s @ [c]"])
          show ?thesis
          proof (cases "skip_ws r1 = []")
            case True
            with skip_ws_snoc_Nil [OF ws True] show ?thesis
              unfolding l r by (simp add: parse_array_Nil)
          next
            case False
            with skip_ws_snoc [OF ws, of r1]
            have sk: "skip_ws (r1 @ [c]) = skip_ws r1 @ [c]" by simp
            from "2.IH"(2) [OF so refl g w nb cm] show ?thesis
              unfolding l r sk by auto
          qed
        qed
      qed
    qed
  qed
next
  case (3 s)
  from ws have cq: "c \<noteq> CHR 0x22" by (auto dest!: json_ws_cases)
  show ?case
  proof (cases s)
    case Nil
    with cq show ?thesis
      by (simp add: parse_object.simps [of "[]"] parse_object.simps [of "[c]"])
  next
    case s: (Cons a cs)
    show ?thesis
    proof (cases "a \<noteq> CHR 0x22")
      case True
      then show ?thesis
        unfolding s
        by (simp add: parse_object.simps [of "a # cs"] parse_object.simps [of "a # cs @ [c]"])
    next
      case q: False
      with s have sq: "s = CHR 0x22 # cs" by simp
      note ss' = scanstring_snoc [OF ws, of cs]
      show ?thesis
      proof (cases "scanstring cs")
        case None
        with sq ss' show ?thesis
          by (simp add: parse_object.simps [of "CHR 0x22 # cs"] parse_object.simps [of "CHR 0x22 # cs @ [c]"])
      next
        case (Some p)
        obtain key r0 where p: "p = (key, r0)" by (cases p)
        with Some have ss: "scanstring cs = Some (key, r0)" by simp
        with ss' have ssc: "scanstring (cs @ [c]) = Some (key, r0 @ [c])" by simp
        show ?thesis
        proof (cases "skip_ws r0")
          case Nil
          with sq ss ssc skip_ws_snoc_Nil [OF ws Nil] show ?thesis
            by (simp add: parse_object.simps [of "CHR 0x22 # cs"] parse_object.simps [of "CHR 0x22 # cs @ [c]"])
        next
          case w: (Cons d r1)
          note w' = skip_ws_snoc_Cons [OF w, of c]
          show ?thesis
          proof (cases "d \<noteq> CHR '':''")
            case True
            with sq ss ssc w w' show ?thesis
              by (simp add: parse_object.simps [of "CHR 0x22 # cs"] parse_object.simps [of "CHR 0x22 # cs @ [c]"])
          next
            case col: False
            have l1: "parse_object s =
                (case scan_once (skip_ws r1) of
                   None \<Rightarrow> None
                 | Some (v, r2) \<Rightarrow>
                     if length r1 \<le> length r2 then None
                     else
                       (case skip_ws r2 of
                          [] \<Rightarrow> None
                        | e # r3 \<Rightarrow>
                            if e = CHR ''}'' then Some ([(key, v)], r3)
                            else if e = CHR '','' then
                              map_option (\<lambda>(kvs, q). ((key, v) # kvs, q))
                                (parse_object (skip_ws r3))
                            else None))"
              using sq ss w col by (simp add: parse_object.simps [of "CHR 0x22 # cs"])
            have r1': "parse_object (s @ [c]) =
                (case scan_once (skip_ws (r1 @ [c])) of
                   None \<Rightarrow> None
                 | Some (v, r2) \<Rightarrow>
                     if length (r1 @ [c]) \<le> length r2 then None
                     else
                       (case skip_ws r2 of
                          [] \<Rightarrow> None
                        | e # r3 \<Rightarrow>
                            if e = CHR ''}'' then Some ([(key, v)], r3)
                            else if e = CHR '','' then
                              map_option (\<lambda>(kvs, q). ((key, v) # kvs, q))
                                (parse_object (skip_ws r3))
                            else None))"
              using sq ssc w' col by (simp add: parse_object.simps [of "CHR 0x22 # cs @ [c]"])
            show ?thesis
            proof (cases "skip_ws r1 = []")
              case True
              with skip_ws_snoc_Nil [OF ws True] show ?thesis
                unfolding l1 r1' by (simp add: scan_once_Nil)
            next
              case ne: False
              with skip_ws_snoc [OF ws, of r1]
              have sk1: "skip_ws (r1 @ [c]) = skip_ws r1 @ [c]" by simp
              note ih1 = "3.IH"(1) [OF s q ss refl w col]
              show ?thesis
              proof (cases "scan_once (skip_ws r1)")
                case None
                with ih1 have "scan_once (skip_ws r1 @ [c]) = None" by auto
                with None show ?thesis unfolding l1 r1' sk1 by simp
              next
                case sv: (Some pv)
                obtain v r2 where pv: "pv = (v, r2)" by (cases pv)
                with sv have so: "scan_once (skip_ws r1) = Some (v, r2)" by simp
                with ih1 have so': "scan_once (skip_ws r1 @ [c]) = Some (v, r2 @ [c])" by auto
                from scan_length(1) so have "length r2 < length (skip_ws r1)" by blast
                with skip_ws_length [of r1] have g: "\<not> length r1 \<le> length r2" by simp
                then have g': "\<not> length (r1 @ [c]) \<le> length (r2 @ [c])" by simp
                show ?thesis
                proof (cases "skip_ws r2")
                  case Nil
                  with so so' g g' skip_ws_snoc_Nil [OF ws Nil] show ?thesis
                    unfolding l1 r1' sk1 by simp
                next
                  case w2: (Cons e r3)
                  note w2' = skip_ws_snoc_Cons [OF w2, of c]
                  show ?thesis
                  proof (cases "e = CHR ''}''")
                    case True
                    with so so' g g' w2 w2' show ?thesis
                      unfolding l1 r1' sk1 by simp
                  next
                    case nb: False
                    show ?thesis
                    proof (cases "e = CHR '',''")
                      case False
                      with so so' g g' w2 w2' nb show ?thesis
                        unfolding l1 r1' sk1 by simp
                    next
                      case cm: True
                      have l2: "parse_object s = map_option (\<lambda>(kvs, q). ((key, v) # kvs, q))
                                  (parse_object (skip_ws r3))"
                        unfolding l1 using so g w2 nb cm by simp
                      have r2': "parse_object (s @ [c]) = map_option (\<lambda>(kvs, q). ((key, v) # kvs, q))
                                  (parse_object (skip_ws (r3 @ [c])))"
                        unfolding r1' sk1 using so' g' w2' nb cm by simp
                      show ?thesis
                      proof (cases "skip_ws r3 = []")
                        case True
                        with skip_ws_snoc_Nil [OF ws True] show ?thesis
                          unfolding l2 r2' by (simp add: parse_object_Nil)
                      next
                        case False
                        with skip_ws_snoc [OF ws, of r3]
                        have sk3: "skip_ws (r3 @ [c]) = skip_ws r3 @ [c]" by simp
                        from "3.IH"(2) [OF s q ss refl w col so refl g w2 nb cm] show ?thesis
                          unfolding l2 r2' sk3 by auto
                      qed
                    qed
                  qed
                qed
              qed
            qed
          qed
        qed
      qed
    qed
  qed
qed

lemma py_json_decode_snoc:
  assumes "json_ws c"
  shows "py_json_decode (s @ [c]) = py_json_decode s"
proof (cases "skip_ws s = []")
  case True
  with skip_ws_snoc_Nil [OF assms True] show ?thesis
    by (simp add: py_json_decode_def scan_once_Nil)
next
  case False
  with skip_ws_snoc [OF assms, of s] have sk: "skip_ws (s @ [c]) = skip_ws s @ [c]" by simp
  from scan_snoc(1) [OF assms, of "skip_ws s"] show ?thesis
  proof
    assume "scan_once (skip_ws s) = None \<and> scan_once (skip_ws s @ [c]) = None"
    then show ?thesis by (simp add: py_json_decode_def sk)
  next
    assume "\<exists>v r. scan_once (skip_ws s) = Some (v, r)
              \<and> scan_once (skip_ws s @ [c]) = Some (v, r @ [c])"
    then obtain v r where "scan_once (skip_ws s) = Some (v, r)"
      and "scan_once (skip_ws s @ [c]) = Some (v, r @ [c])" by blast
    then show ?thesis
      by (simp add: py_json_decode_def sk skip_ws_snoc [OF assms, of r])
  qed
qed

lemma py_json_decode_Cons:
  "json_ws c \<Longrightarrow> py_json_decode (c # s) = py_json_decode s"
  by (simp add: py_json_decode_def skip_ws_def)

lemma py_json_decode_trailing:
  "list_all json_ws t \<Longrightarrow> py_json_decode (s @ t) = py_json_decode s"
proof (induction t rule: rev_induct)
  case Nil
  then show ?case by simp
next
  case (snoc c t)
  then have "json_ws c" and "list_all json_ws t" by simp_all
  with snoc.IH py_json_decode_snoc [of c "s @ t"] show ?case by simp
qed

lemma py_json_decode_leading:
  "list_all json_ws l \<Longrightarrow> py_json_decode (l @ s) = py_json_decode s"
  by (induction l) (simp_all add: py_json_decode_Cons)

lemma py_json_decode_surrounded:
  "list_all json_ws l \<Longrightarrow> list_all json_ws t \<Longrightarrow> py_json_decode (l @ s @ t) = py_json_decode s"
  by (simp add: py_json_decode_leading py_json_decode_trailing)

subsection \<open>Where a document starts and where it ends\<close>

text \<open>
  The characters with which a JSON document can start, as \<open>scan_once\<close> dispatches on them,
  and the characters with which the text of a value can end: a quote, a closing brace or
  bracket, the last letter of \<^verbatim>\<open>null\<close>, \<^verbatim>\<open>true\<close>, \<^verbatim>\<open>false\<close>, \<^verbatim>\<open>NaN\<close> and
  \<^verbatim>\<open>Infinity\<close>, or a digit. None of them is white space for \<^verbatim>\<open>strip\<close>, so trimming a
  reply that the decoder accepts removes JSON white space only.
\<close>

definition value_start :: "char \<Rightarrow> bool" where
  "value_start c = (c \<in> set ''\"{[ntfNI-'' \<or> is_digit c)"

lemma scan_once_no_value:
  assumes "\<not> value_start c"
  shows "scan_once (c # cs) = None"
proof -
  from assms have "match_number (c # cs) = None"
    by (simp add: match_number_def value_start_def)
  with assms show ?thesis
    by (subst scan_once.simps) (auto simp: value_start_def)
qed

lemma py_json_decode_no_value:
  assumes "\<not> json_ws c" and "\<not> value_start c"
  shows "py_json_decode (c # cs) = None"
  using assms by (simp add: py_json_decode_def skip_ws_def scan_once_no_value)

definition value_end :: "char \<Rightarrow> bool" where
  "value_end c = (c \<in> set ''\"}]leNy'' \<or> is_digit c)"

lemma skip_ws_suffix: "suffix (skip_ws s) s"
  by (simp add: skip_ws_def suffix_dropWhile)

lemma hex4_suffix: "hex4 s = Some (u, r) \<Longrightarrow> suffix r s"
  by (auto simp: hex4_def suffix_def split: list.splits option.splits)

lemma join_surrogate_suffix: "join_surrogate u r = Some (cp, r') \<Longrightarrow> suffix r' r"
  unfolding join_surrogate_def
  by (auto simp: suffix_Cons split: if_splits list.splits option.splits dest!: hex4_suffix)

lemma scanstring_suffix: "scanstring s = Some (t, r) \<Longrightarrow> suffix (CHR 0x22 # r) s"
proof (induction s arbitrary: t r rule: scanstring.induct)
  case 1
  then show ?case by simp
next
  case (2 c cs)
  show ?case
  proof (cases "c = CHR 0x22")
    case True
    with 2(4) show ?thesis by simp
  next
    case q: False
    show ?thesis
    proof (cases "c = CHR 0x5C")
      case False
      with q 2(4) obtain t' where "scanstring cs = Some (t', r)"
        by (auto split: if_splits)
      from 2(3) [OF q False _ this] q False 2(4) have "suffix (CHR 0x22 # r) cs"
        by (auto split: if_splits)
      then show ?thesis by (rule suffix_ConsI)
    next
      case b: True
      from 2(4) q b obtain e es where cs: "cs = e # es" by (cases cs) auto
      show ?thesis
      proof (cases "e = CHR ''u''")
        case True
        from 2(4) q b cs True obtain u r0 where h: "hex4 es = Some (u, r0)"
          by (cases "hex4 es") auto
        from 2(4) q b cs True h obtain cp r' where j: "join_surrogate u r0 = Some (cp, r')"
          by (cases "join_surrogate u r0") auto
        from 2(4) q b cs True h j obtain t' where s: "scanstring r' = Some (t', r)"
          by auto
        from 2(1) [OF q b cs True h refl j refl s] have "suffix (CHR 0x22 # r) r'" .
        also from j have "suffix r' r0" by (rule join_surrogate_suffix)
        also from h have "suffix r0 es" by (rule hex4_suffix)
        finally have "suffix (CHR 0x22 # r) es" .
        then show ?thesis unfolding cs by (intro suffix_ConsI)
      next
        case False
        from 2(4) q b cs False obtain ch where un: "unescape e = Some ch"
          by (cases "unescape e") auto
        from 2(4) q b cs False un obtain t' where s: "scanstring es = Some (t', r)"
          by auto
        from 2(2) [OF q b cs False un s] have "suffix (CHR 0x22 # r) es" .
        then show ?thesis unfolding cs by (intro suffix_ConsI)
      qed
    qed
  qed
qed

lemma digits_suffix:
  "is_digit q \<Longrightarrow> \<exists>c. is_digit c \<and> suffix (c # dropWhile is_digit qs) (q # qs)"
proof (induction qs arbitrary: q)
  case Nil
  then show ?case by auto
next
  case (Cons x xs)
  show ?case
  proof (cases "is_digit x")
    case True
    from Cons.IH [OF True] obtain c where "is_digit c" and "suffix (c # dropWhile is_digit xs) (x # xs)"
      by blast
    with True show ?thesis by (auto intro: suffix_ConsI)
  next
    case False
    with Cons.prems show ?thesis by auto
  qed
qed

lemma fraction_part_suffix:
  assumes "fraction_part s = (fp, r)"
  shows "r = s \<or> (\<exists>c. is_digit c \<and> suffix (c # r) s)"
proof (cases "\<exists>q qs. s = CHR ''.'' # q # qs \<and> is_digit q")
  case True
  then obtain q qs where s: "s = CHR ''.'' # q # qs" and d: "is_digit q" by blast
  with assms have r: "r = dropWhile is_digit qs" by (simp add: fraction_part_def)
  from digits_suffix [OF d, of qs] obtain c where "is_digit c"
    and "suffix (c # dropWhile is_digit qs) (q # qs)" by blast
  with s r show ?thesis by (auto intro: suffix_ConsI)
next
  case False
  with assms have "r = s"
    by (auto simp: fraction_part_def split: list.splits if_splits)
  then show ?thesis ..
qed

lemma exponent_part_suffix:
  assumes "exponent_part s = (ep, r)"
  shows "r = s \<or> (\<exists>c. is_digit c \<and> suffix (c # r) s)"
proof (cases "r = s")
  case True
  then show ?thesis ..
next
  case False
  with assms obtain e r0 where s: "s = e # r0"
    by (cases s) (auto simp: exponent_part_def)
  obtain sg r1 where g: "(case r0 of [] \<Rightarrow> ([], r0)
        | g # r' \<Rightarrow> if g = CHR ''+'' \<or> g = CHR ''-'' then ([g], r') else ([], r0)) = (sg, r1)"
    by (cases "(case r0 of [] \<Rightarrow> ([], r0)
        | g # r' \<Rightarrow> if g = CHR ''+'' \<or> g = CHR ''-'' then ([g], r') else ([], r0))") auto
  then have sf: "suffix r1 r0" by (auto split: list.splits if_splits intro: suffix_ConsI)
  from assms False s g obtain d ds where r1: "r1 = d # ds" and dg: "is_digit d"
    and r: "r = dropWhile is_digit r1"
    by (cases r1) (auto simp: exponent_part_def split: if_splits)
  from r r1 dg have r': "r = dropWhile is_digit ds" by simp
  from digits_suffix [OF dg, of ds] obtain c where c: "is_digit c"
    and "suffix (c # dropWhile is_digit ds) (d # ds)" by blast
  with r' r1 have "suffix (c # r) r1" by simp
  from this sf have "suffix (c # r) r0" by (rule suffix_order.trans)
  then have "suffix (c # r) s" unfolding s by (rule suffix_ConsI)
  with c show ?thesis by blast
qed

lemma match_number_suffix:
  assumes m: "match_number s = Some (n, r)"
  shows "\<exists>c. is_digit c \<and> suffix (c # r) s"
proof -
  obtain sg s1 where a: "(case s of [] \<Rightarrow> ([], s) | c # cs \<Rightarrow> if c = CHR ''-'' then ([c], cs) else ([], s)) = (sg, s1)"
    by (cases "(case s of [] \<Rightarrow> ([], s) | c # cs \<Rightarrow> if c = CHR ''-'' then ([c], cs) else ([], s))") auto
  then have l1: "suffix s1 s" by (auto split: list.splits if_splits intro: suffix_ConsI)
  from m a obtain d ds where s1: "s1 = d # ds" and dg: "is_digit d"
    by (cases s1) (auto simp: match_number_def split: if_splits)
  obtain ip s2 where b: "(if d = CHR ''0'' then ([d], ds)
       else (d # takeWhile is_digit ds, dropWhile is_digit ds)) = (ip, s2)"
    by (cases "d = CHR ''0''") auto
  have l2: "\<exists>c. is_digit c \<and> suffix (c # s2) s1"
  proof (cases "d = CHR ''0''")
    case True
    with b have "s2 = ds" by simp
    with s1 dg show ?thesis by auto
  next
    case False
    with b have "s2 = dropWhile is_digit ds" by simp
    with digits_suffix [OF dg, of ds] s1 show ?thesis by simp
  qed
  obtain fp s3 where c: "fraction_part s2 = (fp, s3)" by (cases "fraction_part s2") auto
  obtain ep s4 where d: "exponent_part s3 = (ep, s4)" by (cases "exponent_part s3") auto
  from m a s1 dg b c d have r: "r = s4"
    by (auto simp: match_number_def split: if_splits)
  have l3: "\<exists>c. is_digit c \<and> suffix (c # s3) s1"
    using fraction_part_suffix [OF c] l2
    by (metis suffix_ConsD suffix_order.trans)
  have l4: "\<exists>c. is_digit c \<and> suffix (c # s4) s1"
    using exponent_part_suffix [OF d] l3
    by (metis suffix_ConsD suffix_order.trans)
  with r l1 show ?thesis by (metis suffix_order.trans)
qed

lemma scan_suffix:
  "(\<forall>v r. scan_once s = Some (v, r) \<longrightarrow> (\<exists>c. value_end c \<and> suffix (c # r) s))"
  "(\<forall>vs r. parse_array s1 = Some (vs, r) \<longrightarrow> suffix (CHR '']'' # r) s1)"
  "(\<forall>kvs r. parse_object s2 = Some (kvs, r) \<longrightarrow> suffix (CHR ''}'' # r) s2)"
proof (induction s and s1 and s2 rule: scan_once_parse_array_parse_object.induct)
  case (1 s)
  show ?case
  proof (intro allI impI)
    fix v r
    assume h: "scan_once s = Some (v, r)"
    then obtain c cs where s: "s = c # cs"
      by (cases s) (simp_all add: scan_once.simps)
    consider (str) "c = CHR 0x22"
      | (obj) "c \<noteq> CHR 0x22" "c = CHR ''{''"
      | (arr) "c \<noteq> CHR 0x22" "c \<noteq> CHR ''{''" "c = CHR ''[''"
      | (other) "c \<noteq> CHR 0x22" "c \<noteq> CHR ''{''" "c \<noteq> CHR ''[''"
      by blast
    then show "\<exists>c. value_end c \<and> suffix (c # r) s"
    proof cases
      case str
      with h s obtain t where "scanstring cs = Some (t, r)"
        by (auto simp: scan_once.simps)
      from scanstring_suffix [OF this] have "suffix (CHR 0x22 # r) s"
        unfolding s by (rule suffix_ConsI)
      moreover have "value_end (CHR 0x22)" by (simp add: value_end_def)
      ultimately show ?thesis by blast
    next
      case obj
      from h s obj obtain d r0 where w: "skip_ws cs = d # r0"
        by (cases "skip_ws cs") (simp_all add: scan_once.simps)
      from skip_ws_suffix [of cs] w have l: "suffix (d # r0) s"
        unfolding s by (auto intro: suffix_ConsI)
      have e: "value_end (CHR ''}'')" by (simp add: value_end_def)
      show ?thesis
      proof (cases "d = CHR ''}''")
        case True
        with h s obj w have "r = r0" by (simp add: scan_once.simps)
        with l True e show ?thesis by blast
      next
        case False
        with h s obj w obtain kvs where p: "parse_object (d # r0) = Some (kvs, r)"
          by (auto simp: scan_once.simps)
        from "1.IH"(1) [OF s obj(1) obj(2) w False] p have "suffix (CHR ''}'' # r) (d # r0)"
          by blast
        from this l have "suffix (CHR ''}'' # r) s" by (rule suffix_order.trans)
        with e show ?thesis by blast
      qed
    next
      case arr
      from h s arr obtain d r0 where w: "skip_ws cs = d # r0"
        by (cases "skip_ws cs") (simp_all add: scan_once.simps)
      from skip_ws_suffix [of cs] w have l: "suffix (d # r0) s"
        unfolding s by (auto intro: suffix_ConsI)
      have e: "value_end (CHR '']'')" by (simp add: value_end_def)
      show ?thesis
      proof (cases "d = CHR '']''")
        case True
        with h s arr w have "r = r0" by (simp add: scan_once.simps)
        with l True e show ?thesis by blast
      next
        case False
        with h s arr w obtain vs where p: "parse_array (d # r0) = Some (vs, r)"
          by (auto simp: scan_once.simps)
        from "1.IH"(2) [OF s arr(1) arr(2) arr(3) w False] p have "suffix (CHR '']'' # r) (d # r0)"
          by blast
        from this l have "suffix (CHR '']'' # r) s" by (rule suffix_order.trans)
        with e show ?thesis by blast
      qed
    next
      case other
      have e: "scan_once s =
          (if prefix ''null'' s then Some (JNull, drop 4 s)
           else if prefix ''true'' s then Some (JBool True, drop 4 s)
           else if prefix ''false'' s then Some (JBool False, drop 5 s)
           else if prefix ''NaN'' s then Some (JNumber ''NaN'', drop 3 s)
           else if prefix ''Infinity'' s then Some (JNumber ''Infinity'', drop 8 s)
           else if prefix ''-Infinity'' s then Some (JNumber ''-Infinity'', drop 9 s)
           else map_option (\<lambda>(n, r). (JNumber n, r)) (match_number s))"
        using s other by (subst scan_once.simps) simp
      have lit: "\<exists>c. value_end c \<and> suffix (c # drop (length (w @ [x])) s) s"
        if "prefix (w @ [x]) s" and "value_end x" for w x
      proof -
        from that(1) obtain t where t: "s = (w @ [x]) @ t" by (auto simp: prefix_def)
        then have "drop (length (w @ [x])) s = t" by simp
        moreover from t have "suffix (x # t) s" by (simp add: suffix_def)
        ultimately show ?thesis using that(2) by auto
      qed
      have ve: "value_end (CHR ''l'')" "value_end (CHR ''e'')" "value_end (CHR ''N'')"
        "value_end (CHR ''y'')"
        by (simp_all add: value_end_def)
      consider (null) "prefix ''null'' s" "r = drop 4 s"
        | (true) "prefix ''true'' s" "r = drop 4 s"
        | (false) "prefix ''false'' s" "r = drop 5 s"
        | (nan) "prefix ''NaN'' s" "r = drop 3 s"
        | (inf) "prefix ''Infinity'' s" "r = drop 8 s"
        | (minf) "prefix ''-Infinity'' s" "r = drop 9 s"
        | (num) n where "match_number s = Some (n, r)"
        using h unfolding e by (auto split: if_splits)
      then show ?thesis
      proof cases
        case null
        with lit [of "''nul''" "CHR ''l''"] ve show ?thesis by (simp add: eval_nat_numeral)
      next
        case true
        with lit [of "''tru''" "CHR ''e''"] ve show ?thesis by (simp add: eval_nat_numeral)
      next
        case false
        with lit [of "''fals''" "CHR ''e''"] ve show ?thesis by (simp add: eval_nat_numeral)
      next
        case nan
        with lit [of "''Na''" "CHR ''N''"] ve show ?thesis by (simp add: eval_nat_numeral)
      next
        case inf
        with lit [of "''Infinit''" "CHR ''y''"] ve show ?thesis by (simp add: eval_nat_numeral)
      next
        case minf
        with lit [of "''-Infinit''" "CHR ''y''"] ve show ?thesis by (simp add: eval_nat_numeral)
      next
        case num
        from match_number_suffix [OF num] show ?thesis
          by (auto simp: value_end_def)
      qed
    qed
  qed
next
  case (2 s)
  show ?case
  proof (intro allI impI)
    fix vs r
    assume h: "parse_array s = Some (vs, r)"
    then obtain v r0 where so: "scan_once s = Some (v, r0)"
      by (cases "scan_once s") (auto simp: parse_array.simps)
    from "2.IH"(1) so obtain c where "suffix (c # r0) s" by blast
    then have l0: "suffix r0 s" by (rule suffix_ConsD)
    from scan_length(1) so have "length r0 < length s" by blast
    then have g: "\<not> length s \<le> length r0" by simp
    from h so g obtain d r1 where w: "skip_ws r0 = d # r1"
      by (cases "skip_ws r0") (simp_all add: parse_array.simps)
    from skip_ws_suffix [of r0] w l0 have l1: "suffix (d # r1) s"
      by (auto intro: suffix_order.trans)
    show "suffix (CHR '']'' # r) s"
    proof (cases "d = CHR '']''")
      case True
      with h so g w have "r = r1" by (simp add: parse_array.simps)
      with l1 True show ?thesis by simp
    next
      case False
      with h so g w have c: "d = CHR '',''"
        by (simp add: parse_array.simps split: if_splits)
      with h so g w False obtain vs' where p: "parse_array (skip_ws r1) = Some (vs', r)"
        by (auto simp: parse_array.simps)
      from "2.IH"(2) [OF so refl g w False c] p have "suffix (CHR '']'' # r) (skip_ws r1)"
        by blast
      also have "suffix (skip_ws r1) r1" by (rule skip_ws_suffix)
      also from l1 have "suffix r1 s" by (rule suffix_ConsD)
      finally show ?thesis .
    qed
  qed
next
  case (3 s)
  show ?case
  proof (intro allI impI)
    fix kvs r
    assume h: "parse_object s = Some (kvs, r)"
    then obtain c cs where s: "s = c # cs"
      by (cases s) (simp_all add: parse_object.simps)
    from h s have q: "\<not> c \<noteq> CHR 0x22"
      by (auto simp: parse_object.simps split: if_splits)
    from h s q obtain key r0 where ss: "scanstring cs = Some (key, r0)"
      by (cases "scanstring cs") (auto simp: parse_object.simps)
    from scanstring_suffix [OF ss] have "suffix r0 cs" by (rule suffix_ConsD)
    then have l0: "suffix r0 s" unfolding s by (rule suffix_ConsI)
    from h s q ss obtain d r1 where w: "skip_ws r0 = d # r1"
      by (cases "skip_ws r0") (simp_all add: parse_object.simps)
    from skip_ws_suffix [of r0] w have "suffix r1 r0" by (auto dest: suffix_ConsD)
    from this l0 have l1: "suffix r1 s" by (rule suffix_order.trans)
    from h s q ss w have col: "\<not> d \<noteq> CHR '':''"
      by (auto simp: parse_object.simps split: if_splits)
    from h s q ss w col obtain v r2 where so: "scan_once (skip_ws r1) = Some (v, r2)"
      by (cases "scan_once (skip_ws r1)") (auto simp: parse_object.simps)
    from "3.IH"(1) [OF s q ss refl w col] so obtain c' where "suffix (c' # r2) (skip_ws r1)"
      by blast
    then have "suffix r2 (skip_ws r1)" by (rule suffix_ConsD)
    also have "suffix (skip_ws r1) r1" by (rule skip_ws_suffix)
    also note l1
    finally have l2: "suffix r2 s" .
    from scan_length(1) so have "length r2 < length (skip_ws r1)" by blast
    with skip_ws_length [of r1] have g: "\<not> length r1 \<le> length r2" by simp
    from h s q ss w col so g obtain e r3 where w2: "skip_ws r2 = e # r3"
      by (cases "skip_ws r2") (simp_all add: parse_object.simps)
    from skip_ws_suffix [of r2] w2 l2 have l3: "suffix (e # r3) s"
      by (auto intro: suffix_order.trans)
    show "suffix (CHR ''}'' # r) s"
    proof (cases "e = CHR ''}''")
      case True
      with h s q ss w col so g w2 have "r = r3" by (simp add: parse_object.simps)
      with l3 True show ?thesis by simp
    next
      case False
      with h s q ss w col so g w2 have c: "e = CHR '',''"
        by (simp add: parse_object.simps split: if_splits)
      with h s q ss w col so g w2 False obtain kvs'
        where p: "parse_object (skip_ws r3) = Some (kvs', r)"
        by (auto simp: parse_object.simps)
      from "3.IH"(2) [OF s q ss refl w col so refl g w2 False c] p
      have "suffix (CHR ''}'' # r) (skip_ws r3)" by blast
      also have "suffix (skip_ws r3) r3" by (rule skip_ws_suffix)
      also from l3 have "suffix r3 s" by (rule suffix_ConsD)
      finally show ?thesis .
    qed
  qed
qed

lemma strip_leading_stop:
  assumes "x \<notin> hd ` set ws"
  shows "strip_leading ws (x # s) = x # s"
proof -
  have "find (\<lambda>w. w \<noteq> [] \<and> prefix w (x # s)) ws = None"
  proof (rule ccontr)
    assume "find (\<lambda>w. w \<noteq> [] \<and> prefix w (x # s)) ws \<noteq> None"
    then obtain w where "w \<in> set ws" and "w \<noteq> []" and "prefix w (x # s)"
      by (auto simp: find_None_iff)
    then have "w \<in> set ws" and "hd w = x" by (auto simp: neq_Nil_conv)
    with assms show False by auto
  qed
  then show ?thesis by (subst strip_leading.simps) simp
qed

lemma strip_leading_single:
  assumes "[a] \<in> set ws" and "\<forall>w\<in>set ws. w \<noteq> [] \<and> hd w = a \<longrightarrow> w = [a]"
  shows "strip_leading ws (a # s) = strip_leading ws s"
proof -
  from assms(1) have "find (\<lambda>w. w \<noteq> [] \<and> prefix w (a # s)) ws \<noteq> None"
    by (auto simp: find_None_iff)
  then obtain w where f: "find (\<lambda>w. w \<noteq> [] \<and> prefix w (a # s)) ws = Some w" by auto
  then have "w \<in> set ws" and "w \<noteq> []" and "prefix w (a # s)"
    by (auto simp: find_Some_iff)
  then have "w \<in> set ws" and "w \<noteq> [] \<and> hd w = a" by (auto simp: neq_Nil_conv)
  with assms(2) have "w = [a]" by blast
  with f show ?thesis by (subst strip_leading.simps) simp
qed

lemma json_ws_single:
  "list_all (\<lambda>a. list_all (\<lambda>w. w \<noteq> [] \<and> hd w = a \<longrightarrow> w = [a]) py_whitespace
                   \<and> list_all (\<lambda>w. w \<noteq> [] \<and> hd w = a \<longrightarrow> w = [a]) (map rev py_whitespace)
                   \<and> [a] \<in> set py_whitespace)
     [CHR 0x20, CHR 0x09, CHR 0x0A, CHR 0x0D]"
  by code_simp

lemma json_ws_forward:
  assumes "json_ws a"
  shows "[a] \<in> set py_whitespace"
    and "\<forall>w\<in>set py_whitespace. w \<noteq> [] \<and> hd w = a \<longrightarrow> w = [a]"
proof -
  from assms have "a \<in> set [CHR 0x20, CHR 0x09, CHR 0x0A, CHR 0x0D]"
    by (auto dest!: json_ws_cases)
  with json_ws_single show "[a] \<in> set py_whitespace"
    and "\<forall>w\<in>set py_whitespace. w \<noteq> [] \<and> hd w = a \<longrightarrow> w = [a]"
    unfolding list_all_iff by blast+
qed

lemma json_ws_backward:
  assumes "json_ws a"
  shows "[a] \<in> set (map rev py_whitespace)"
    and "\<forall>w\<in>set (map rev py_whitespace). w \<noteq> [] \<and> hd w = a \<longrightarrow> w = [a]"
proof -
  from assms have "a \<in> set [CHR 0x20, CHR 0x09, CHR 0x0A, CHR 0x0D]"
    by (auto dest!: json_ws_cases)
  with json_ws_single show "\<forall>w\<in>set (map rev py_whitespace). w \<noteq> [] \<and> hd w = a \<longrightarrow> w = [a]"
    unfolding list_all_iff by blast
  from json_ws_forward(1) [OF assms] have "rev [a] \<in> rev ` set py_whitespace" by (rule imageI)
  then show "[a] \<in> set (map rev py_whitespace)" by simp
qed

lemma strip_leading_json_ws:
  assumes "list_all json_ws w"
  shows "strip_leading py_whitespace (w @ s) = strip_leading py_whitespace s"
    and "strip_leading (map rev py_whitespace) (w @ s) = strip_leading (map rev py_whitespace) s"
  using assms
proof (induction w)
  case Nil
  { case 1 show ?case by simp }
  { case 2 show ?case by simp }
next
  case (Cons a w)
  { case 1
    then have a: "json_ws a" and w: "list_all json_ws w" by simp_all
    from strip_leading_single [OF json_ws_forward [OF a]] Cons.IH(1) [OF w]
    show ?case by simp }
  { case 2
    then have a: "json_ws a" and w: "list_all json_ws w" by simp_all
    from strip_leading_single [OF json_ws_backward [OF a]] Cons.IH(2) [OF w]
    show ?case by simp }
qed

lemma value_start_no_space:
  assumes "value_start x"
  shows "x \<notin> hd ` set py_whitespace"
proof -
  have "list_all (\<lambda>c. \<not> value_start c) (map hd py_whitespace)" by code_simp
  with assms show ?thesis unfolding list_all_iff by auto
qed

lemma value_end_no_space:
  assumes "value_end c"
  shows "c \<notin> hd ` set (map rev py_whitespace)"
proof -
  have "list_all (\<lambda>c. \<not> value_end c) (map hd (map rev py_whitespace))" by code_simp
  with assms show ?thesis unfolding list_all_iff by auto
qed

lemma py_strip_document:
  assumes "list_all json_ws l" and "list_all json_ws t"
    and "value_start x" and "suffix [c] (x # doc)" and "value_end c"
  shows "py_strip (l @ (x # doc) @ t) = x # doc"
proof -
  have "py_lstrip (l @ (x # doc) @ t) = (x # doc) @ t"
    unfolding py_lstrip_def strip_leading_json_ws(1) [OF assms(1)]
    using strip_leading_stop [OF value_start_no_space [OF assms(3)]] by simp
  moreover from assms(4) obtain ds where d: "x # doc = ds @ [c]" by (auto simp: suffix_def)
  have "py_rstrip ((x # doc) @ t) = x # doc"
  proof -
    have "list_all json_ws (rev t)" using assms(2) by (simp add: list_all_iff)
    from strip_leading_json_ws(2) [OF this, of "c # rev ds"]
    have "strip_leading (map rev py_whitespace) (rev ((x # doc) @ t))
            = strip_leading (map rev py_whitespace) (c # rev ds)"
      unfolding d by simp
    also have "\<dots> = c # rev ds"
      by (rule strip_leading_stop [OF value_end_no_space [OF assms(5)]])
    finally show ?thesis unfolding py_rstrip_def d by simp
  qed
  ultimately show ?thesis by (simp add: py_strip_def)
qed

lemma decoded_reply_trimmed:
  assumes "py_json_decode text = Some v"
  shows "\<exists>lead trail. text = lead @ py_strip text @ trail
           \<and> list_all json_ws lead \<and> list_all json_ws trail"
proof -
  from assms obtain r where so: "scan_once (skip_ws text) = Some (v, r)" and e: "skip_ws r = []"
    by (auto simp: py_json_decode_def split: option.splits if_splits)
  let ?l = "takeWhile json_ws text"
  have t: "text = ?l @ skip_ws text" by (simp add: skip_ws_def)
  have l: "list_all json_ws ?l" by (auto simp: list_all_iff dest: set_takeWhileD)
  from e have r: "list_all json_ws r" by (simp add: skip_ws_def list_all_iff)
  from scan_suffix(1) so obtain c where c: "value_end c" and "suffix (c # r) (skip_ws text)"
    by blast
  then obtain ds where d: "skip_ws text = (ds @ [c]) @ r" by (auto simp: suffix_def)
  obtain x doc where xd: "ds @ [c] = x # doc" by (cases ds) auto
  have x: "value_start x"
  proof (rule ccontr)
    assume "\<not> value_start x"
    then have "scan_once (x # (doc @ r)) = None" by (rule scan_once_no_value)
    with so d xd show False by simp
  qed
  from xd have sf: "suffix [c] (x # doc)" by (metis suffixI)
  from py_strip_document [OF l r x sf c] t d xd
  have "py_strip text = x # doc" by metis
  with t d xd have "text = ?l @ py_strip text @ r" by simp
  with l r show ?thesis by blast
qed

lemma decoded_reply_cleaned:
  assumes "py_json_decode text = Some v"
  shows "py_json_decode (py_strip text) = Some v"
proof -
  from decoded_reply_trimmed [OF assms] obtain lead trail
    where t: "text = lead @ py_strip text @ trail"
      and l: "list_all json_ws lead" and r: "list_all json_ws trail" by blast
  from l r have "py_json_decode (lead @ py_strip text @ trail) = py_json_decode (py_strip text)"
    by (rule py_json_decode_surrounded)
  with t assms show ?thesis by simp
qed

subsection \<open>A reply without a fence\<close>

lemma fence_free_cleaned:
  assumes "\<not> py_str_in ''```'' text"
  shows "cleaned text = py_strip text"
proof -
  from assms have a: "\<not> py_str_in ''```'' (py_strip text)" by (rule fence_free_strip)
  have "\<not> py_str_in (''```'' @ ''json'') (py_strip text)"
    using a py_str_in_mono by blast
  then have b: "\<not> py_str_in ''```json'' (py_strip text)" by simp
  show ?thesis
    unfolding cleaned_def
    by (simp only: py_replace_absent [OF _ b] py_replace_absent [OF _ a] list.distinct
          not_False_eq_True)
qed

lemma fence_free_replace:
  assumes "\<not> py_str_in ''```'' text"
  shows "py_replace ''```'' [] (py_replace ''```json'' [] text) = text"
proof -
  have "\<not> py_str_in (''```'' @ ''json'') text"
    using assms py_str_in_mono by blast
  then have b: "\<not> py_str_in ''```json'' text" by simp
  show ?thesis
    by (simp only: py_replace_absent [OF _ b] py_replace_absent [OF _ assms] list.distinct
          not_False_eq_True)
qed

text \<open>
  Claim C8, as amended. For a reply that contains no code fence (no three consecutive
  backticks), the text given to the decoder by line 135 is the trimmed reply, and
  \<^verbatim>\<open>get_ai_analysis\<close> returns what the decoder makes of it. Whenever the decoder accepts the
  raw reply, it accepts the cleaned text with the same value, and that value is returned. When
  the white space around the reply, the part that \<^verbatim>\<open>strip\<close> removes (\<open>lead\<close> before the
  trimmed reply and \<open>trail\<close> after it), is white space of the JSON grammar, decoding the cleaned
  text and decoding the raw reply agree, in the value and in the refusal. When there is no
  surrounding white space at all, the decoder is given the raw reply, so that the message of a
  refusal is the same as well.
\<close>

theorem fence_free_parse_unchanged:
  assumes "\<not> py_str_in ''```'' text"
    and "generate_content [SYSTEM_PROMPT, prompt] = Returns text"
  shows "cleaned text = py_strip text
         \<and> get_ai_analysis L (Some generate_content) prompt
             = (case py_json_decode (py_strip text) of
                  Some v \<Rightarrow> v
                | None \<Rightarrow> error_dict (''An error occurred: '' @ decode_error L (py_strip text)),
                [[SYSTEM_PROMPT, prompt]])
         \<and> (\<forall>v. py_json_decode text = Some v \<longrightarrow>
               py_json_decode (cleaned text) = Some v
               \<and> get_ai_analysis L (Some generate_content) prompt = (v, [[SYSTEM_PROMPT, prompt]]))
         \<and> (text = lead @ py_strip text @ trail \<and> list_all json_ws lead \<and> list_all json_ws trail \<longrightarrow>
               py_json_decode (cleaned text) = py_json_decode text)
         \<and> (py_strip text = text \<longrightarrow> json_loads L (cleaned text) = json_loads L text)"
proof -
  from assms(1) have c: "cleaned text = py_strip text" by (rule fence_free_cleaned)
  from assms(2) have "get_ai_analysis L (Some generate_content) prompt
           = (case py_json_decode (cleaned text) of
                Some v \<Rightarrow> v
              | None \<Rightarrow> error_dict (''An error occurred: '' @ decode_error L (cleaned text)),
              [[SYSTEM_PROMPT, prompt]])"
    by (rule get_ai_analysis_returned)
  then have g: "get_ai_analysis L (Some generate_content) prompt
             = (case py_json_decode (py_strip text) of
                  Some v \<Rightarrow> v
                | None \<Rightarrow> error_dict (''An error occurred: '' @ decode_error L (py_strip text)),
                [[SYSTEM_PROMPT, prompt]])"
    unfolding c .
  have r: "\<forall>v. py_json_decode text = Some v \<longrightarrow>
               py_json_decode (cleaned text) = Some v
               \<and> get_ai_analysis L (Some generate_content) prompt = (v, [[SYSTEM_PROMPT, prompt]])"
  proof (intro allI impI)
    fix v
    assume "py_json_decode text = Some v"
    then have d: "py_json_decode (py_strip text) = Some v" by (rule decoded_reply_cleaned)
    with g show "py_json_decode (cleaned text) = Some v
               \<and> get_ai_analysis L (Some generate_content) prompt = (v, [[SYSTEM_PROMPT, prompt]])"
      unfolding c by simp
  qed
  have w: "text = lead @ py_strip text @ trail \<and> list_all json_ws lead \<and> list_all json_ws trail \<longrightarrow>
               py_json_decode (cleaned text) = py_json_decode text"
  proof
    assume h: "text = lead @ py_strip text @ trail \<and> list_all json_ws lead \<and> list_all json_ws trail"
    then have "list_all json_ws lead" and "list_all json_ws trail" by simp_all
    then have "py_json_decode (lead @ py_strip text @ trail) = py_json_decode (py_strip text)"
      by (rule py_json_decode_surrounded)
    with h show "py_json_decode (cleaned text) = py_json_decode text" unfolding c by simp
  qed
  have e: "py_strip text = text \<longrightarrow> json_loads L (cleaned text) = json_loads L text"
    unfolding c by simp
  from c g r w e show ?thesis by (intro conjI)
qed

text \<open>
  The theorem at a reply with a space before and a line feed after a JSON object, and at a
  reply without surrounding white space that the decoder refuses.
\<close>

theorem fence_free_parse_unchanged_witness:
  "\<not> py_str_in ''```'' '' {\"ticket_draft\": \"x\"}\<newline>''
   \<and> py_json_decode '' {\"ticket_draft\": \"x\"}\<newline>'' = Some (JObject [(''ticket_draft'', JString ''x'')])
   \<and> '' {\"ticket_draft\": \"x\"}\<newline>'' = '' '' @ py_strip '' {\"ticket_draft\": \"x\"}\<newline>'' @ ''\<newline>''
   \<and> list_all json_ws '' '' \<and> list_all json_ws ''\<newline>''
   \<and> py_json_decode (cleaned '' {\"ticket_draft\": \"x\"}\<newline>'')
       = py_json_decode '' {\"ticket_draft\": \"x\"}\<newline>''
   \<and> py_json_decode (cleaned '' {\"ticket_draft\": \"x\"}\<newline>'')
       = Some (JObject [(''ticket_draft'', JString ''x'')])
   \<and> get_ai_analysis example_libs (Some (\<lambda>parts. Returns '' {\"ticket_draft\": \"x\"}\<newline>'')) ''p''
       = (JObject [(''ticket_draft'', JString ''x'')], [[SYSTEM_PROMPT, ''p'']])
   \<and> \<not> py_str_in ''```'' ''{\"ticket_draft\":''
   \<and> py_strip ''{\"ticket_draft\":'' = ''{\"ticket_draft\":''
   \<and> json_loads example_libs (cleaned ''{\"ticket_draft\":'') = json_loads example_libs ''{\"ticket_draft\":''
   \<and> json_loads example_libs ''{\"ticket_draft\":'' = Inl ''Expecting value''"
proof -
  let ?t = "'' {\"ticket_draft\": \"x\"}\<newline>''"
  let ?gc = "\<lambda>parts :: string list. Returns ?t"
  let ?u = "''{\"ticket_draft\":''"
  let ?gu = "\<lambda>parts :: string list. Returns ?u"
  let ?v = "JObject [(''ticket_draft'', JString ''x'')]"
  have h1: "\<not> py_str_in ''```'' ?t" by code_simp
  have h2: "?gc [SYSTEM_PROMPT, ''p''] = Returns ?t" by simp
  have d: "py_json_decode ?t = Some ?v" by code_simp
  have s: "?t = '' '' @ py_strip ?t @ ''\<newline>''" by code_simp
  have w1: "list_all json_ws '' ''" by code_simp
  have w2: "list_all json_ws ''\<newline>''" by code_simp
  note th = fence_free_parse_unchanged [OF h1 h2, where L = example_libs
      and lead = "'' ''" and trail = "''\<newline>''"]
  note th3 = conjunct1 [OF conjunct2 [OF conjunct2 [OF th]]]
  from th3 d have a: "py_json_decode (cleaned ?t) = Some ?v
      \<and> get_ai_analysis example_libs (Some ?gc) ''p'' = (?v, [[SYSTEM_PROMPT, ''p'']])"
    by blast
  from a have a1: "py_json_decode (cleaned ?t) = Some ?v" by (rule conjunct1)
  from a have a2: "get_ai_analysis example_libs (Some ?gc) ''p'' = (?v, [[SYSTEM_PROMPT, ''p'']])"
    by (rule conjunct2)
  note th4 = conjunct1 [OF conjunct2 [OF conjunct2 [OF conjunct2 [OF th]]]]
  from s w1 w2 have "?t = '' '' @ py_strip ?t @ ''\<newline>'' \<and> list_all json_ws '' ''
      \<and> list_all json_ws ''\<newline>''"
    by (intro conjI)
  with th4 have b: "py_json_decode (cleaned ?t) = py_json_decode ?t" by (rule mp)
  have k1: "\<not> py_str_in ''```'' ?u" by code_simp
  have k2: "?gu [SYSTEM_PROMPT, ''p''] = Returns ?u" by simp
  have k3: "py_strip ?u = ?u" by code_simp
  note tu = fence_free_parse_unchanged [OF k1 k2, where L = example_libs]
  note tu5 = conjunct2 [OF conjunct2 [OF conjunct2 [OF conjunct2 [OF tu]]]]
  from tu5 k3 have j: "json_loads example_libs (cleaned ?u) = json_loads example_libs ?u"
    by (rule mp)
  have m: "json_loads example_libs ?u = Inl ''Expecting value''" by code_simp
  from h1 d s w1 w2 b a1 a2 k1 k3 j m show ?thesis by (intro conjI)
qed
text \<open>
  Claim C8 as stated fails: line 135 trims the reply before it removes the fences, and
  \<^verbatim>\<open>strip\<close> removes white space that the JSON grammar does not accept. The reply made of a
  form feed and \<^verbatim>\<open>{}\<close> contains no fence; the handler decodes it to the empty object, the
  decoder applied to the raw reply refuses it.
\<close>

theorem trimming_changes_parse:
  "\<not> py_str_in ''```'' (CHR 0x0C # ''{}'')
   \<and> json_loads example_libs (cleaned (CHR 0x0C # ''{}'')) = Inr (JObject [])
   \<and> json_loads example_libs (CHR 0x0C # ''{}'') = Inl ''Expecting value''
   \<and> fst (get_ai_analysis example_libs (Some (\<lambda>parts. Returns (CHR 0x0C # ''{}''))) ''p'')
       = JObject []"
  by code_simp

subsection \<open>Every fence is removed, and only the fences\<close>

lemma replace_keeps_no_two_backticks:
  assumes "\<not> prefix ''``'' s"
  shows "\<not> prefix ''``'' (py_replace ''```'' [] s)"
proof (cases s)
  case Nil
  then show ?thesis by (simp add: py_replace_Nil)
next
  case (Cons x xs)
  have "prefix ''``'' ''```''" by simp
  with assms Cons have n: "\<not> prefix ''```'' (x # xs)"
    using prefix_order.trans by blast
  have r: "py_replace ''```'' [] (x # xs) = x # py_replace ''```'' [] xs"
    by (rule py_replace_skip [OF _ n]) simp
  show ?thesis
  proof (cases xs)
    case Nil
    with Cons r show ?thesis by (simp add: py_replace_Nil)
  next
    case (Cons y ys)
    with assms \<open>s = x # xs\<close> have d: "x \<noteq> CHR 0x60 \<or> y \<noteq> CHR 0x60" by auto
    show ?thesis
    proof (cases "y = CHR 0x60")
      case True
      with d have "x \<noteq> CHR 0x60" by simp
      with \<open>s = x # xs\<close> r show ?thesis by simp
    next
      case False
      then have "\<not> prefix ''```'' (y # ys)" by simp
      then have "py_replace ''```'' [] (y # ys) = y # py_replace ''```'' [] ys"
        by (intro py_replace_skip) simp_all
      with False Cons \<open>s = x # xs\<close> r show ?thesis by simp
    qed
  qed
qed

lemma replace_leaves_no_fence: "\<not> py_str_in ''```'' (py_replace ''```'' [] s)"
proof (induction s rule: length_induct)
  case (1 s)
  show ?case
  proof (cases s)
    case Nil
    then show ?thesis by (simp add: py_replace_Nil)
  next
    case (Cons x xs)
    show ?thesis
    proof (cases "prefix ''```'' s")
      case True
      then have "py_replace ''```'' [] s = py_replace ''```'' [] (drop (length ''```'') s)"
        using py_replace_match [of "''```''" s "[]"] by simp
      moreover have "length (drop (length ''```'') s) < length s" using Cons by simp
      ultimately show ?thesis using 1 by metis
    next
      case False
      with Cons have r: "py_replace ''```'' [] s = x # py_replace ''```'' [] xs"
        using py_replace_skip [of "''```''" x xs "[]"] by simp
      from 1 Cons have ih: "\<not> py_str_in ''```'' (py_replace ''```'' [] xs)" by simp
      have "\<not> prefix ''```'' (x # py_replace ''```'' [] xs)"
      proof
        assume p: "prefix ''```'' (x # py_replace ''```'' [] xs)"
        have q: "CHR 0x60 = x \<and> prefix ''``'' (py_replace ''```'' [] xs)"
          using p unfolding Cons_prefix_Cons .
        from q have "CHR 0x60 = x" by (rule conjunct1)
        then have x: "x = CHR 0x60" by (rule sym)
        from q have "prefix ''``'' (py_replace ''```'' [] xs)" by (rule conjunct2)
        with replace_keeps_no_two_backticks have "prefix ''``'' xs" by blast
        with x Cons False show False by simp
      qed
      with ih r show ?thesis by simp
    qed
  qed
qed

lemma cleaned_no_fence: "\<not> py_str_in ''```'' (cleaned text)"
  unfolding cleaned_def by (rule replace_leaves_no_fence)

lemma cleaned_no_json_fence: "\<not> py_str_in ''```json'' (cleaned text)"
proof
  assume "py_str_in ''```json'' (cleaned text)"
  then have "py_str_in (''```'' @ ''json'') (cleaned text)" by simp
  then have "py_str_in ''```'' (cleaned text)" by (rule py_str_in_mono)
  with cleaned_no_fence show False by blast
qed

text \<open>
  To say what a replacement deletes: \<open>pieces sep s\<close> are the parts of \<open>s\<close> between the
  occurrences of a non-empty \<open>sep\<close>, found from the left and without overlap (what
  \<^verbatim>\<open>s.split(sep)\<close> returns), and \<open>joined sep ps\<close> puts \<open>sep\<close> between the parts again
  (\<^verbatim>\<open>sep.join(ps)\<close>). Replacing \<open>sep\<close> by \<open>new\<close> joins the pieces with \<open>new\<close>.
\<close>

function pieces :: "string \<Rightarrow> string \<Rightarrow> string list" where
  "pieces sep s =
     (if sep = [] \<or> s = [] then [s]
      else if prefix sep s then [] # pieces sep (drop (length sep) s)
      else (case pieces sep (tl s) of
              [] \<Rightarrow> [[hd s]]
            | p # ps \<Rightarrow> (hd s # p) # ps))"
  by pat_completeness auto
termination
  by (relation "measure (\<lambda>(sep, s). length s)") auto

declare pieces.simps [simp del]

fun joined :: "string \<Rightarrow> string list \<Rightarrow> string" where
  "joined sep [] = []"
| "joined sep [p] = p"
| "joined sep (p # q # ps) = p @ sep @ joined sep (q # ps)"

lemma pieces_Nil: "pieces sep [] = [[]]"
  by (subst pieces.simps) simp

lemma pieces_match:
  "sep \<noteq> [] \<Longrightarrow> prefix sep s \<Longrightarrow> pieces sep s = [] # pieces sep (drop (length sep) s)"
  by (subst pieces.simps) auto

lemma pieces_not_Nil: "pieces sep s \<noteq> []"
proof (induction s)
  case Nil
  then show ?case by (simp add: pieces_Nil)
next
  case (Cons c cs)
  then show ?case by (subst pieces.simps) (simp split: list.splits)
qed

lemma pieces_skip:
  "sep \<noteq> [] \<Longrightarrow> \<not> prefix sep (c # cs) \<Longrightarrow>
     pieces sep (c # cs) = (c # hd (pieces sep cs)) # tl (pieces sep cs)"
  using pieces_not_Nil [of sep cs]
  by (subst pieces.simps) (simp split: list.splits)

lemma joined_Cons: "ps \<noteq> [] \<Longrightarrow> joined sep (p # ps) = p @ sep @ joined sep ps"
  by (cases ps) simp_all

lemma joined_Cons_hd:
  "ps \<noteq> [] \<Longrightarrow> joined sep ((c # hd ps) # tl ps) = c # joined sep ps"
proof (cases ps)
  case Nil
  assume "ps \<noteq> []"
  with Nil show ?thesis by simp
next
  case (Cons p qs)
  then show ?thesis by (cases qs) simp_all
qed

lemma joined_pieces: "joined sep (pieces sep s) = s"
proof (cases "sep = []")
  case True
  then show ?thesis by (subst pieces.simps) simp
next
  case False
  show ?thesis
  proof (induction s rule: length_induct)
    case (1 s)
    show ?case
    proof (cases s)
      case Nil
      then show ?thesis by (simp add: pieces_Nil)
    next
      case (Cons c cs)
      show ?thesis
      proof (cases "prefix sep s")
        case True
        have "length (drop (length sep) s) < length s" using Cons False by simp
        with 1 have ih: "joined sep (pieces sep (drop (length sep) s)) = drop (length sep) s"
          by blast
        from True have "s = sep @ drop (length sep) s" by (auto simp: prefix_def)
        with ih show ?thesis
          by (simp add: pieces_match [OF False True] joined_Cons [OF pieces_not_Nil])
      next
        case n: False
        from 1 Cons have "joined sep (pieces sep cs) = cs" by simp
        with n Cons show ?thesis
          by (simp add: pieces_skip [OF False] joined_Cons_hd [OF pieces_not_Nil])
      qed
    qed
  qed
qed

lemma joined_empty: "joined [] ps = concat ps"
proof (induction ps)
  case Nil
  show ?case by simp
next
  case (Cons p ps)
  then show ?case by (cases ps) simp_all
qed

lemma replace_joined_pieces:
  assumes "sep \<noteq> []"
  shows "py_replace sep new s = joined new (pieces sep s)"
proof (induction s rule: length_induct)
  case (1 s)
  show ?case
  proof (cases s)
    case Nil
    then show ?thesis by (simp add: pieces_Nil py_replace_Nil [OF assms])
  next
    case (Cons c cs)
    show ?thesis
    proof (cases "prefix sep s")
      case True
      have "length (drop (length sep) s) < length s" using Cons assms by simp
      with 1 have "py_replace sep new (drop (length sep) s)
                     = joined new (pieces sep (drop (length sep) s))" by blast
      then show ?thesis
        by (simp add: pieces_match [OF assms True] py_replace_match [OF assms True]
              joined_Cons [OF pieces_not_Nil])
    next
      case n: False
      from 1 Cons have "py_replace sep new cs = joined new (pieces sep cs)" by simp
      with n Cons show ?thesis
        by (simp add: pieces_skip [OF assms] py_replace_skip [OF assms]
              joined_Cons_hd [OF pieces_not_Nil])
    qed
  qed
qed

lemma replace_concat_pieces: "sep \<noteq> [] \<Longrightarrow> py_replace sep [] s = concat (pieces sep s)"
  by (simp add: replace_joined_pieces joined_empty)

lemma hd_pieces_prefix: "prefix (hd (pieces sep s)) s"
proof -
  have "prefix (hd ps) (joined sep ps)" if "ps \<noteq> []" for ps :: "string list"
  proof (cases ps)
    case Nil
    with that show ?thesis by simp
  next
    case (Cons p qs)
    then show ?thesis by (cases qs) simp_all
  qed
  then have "prefix (hd (pieces sep s)) (joined sep (pieces sep s))"
    using pieces_not_Nil by blast
  then show ?thesis by (simp add: joined_pieces)
qed

lemma pieces_free:
  assumes "sep \<noteq> []"
  shows "list_all (\<lambda>p. \<not> py_str_in sep p) (pieces sep s)"
proof (induction s rule: length_induct)
  case (1 s)
  show ?case
  proof (cases s)
    case Nil
    with assms show ?thesis by (simp add: pieces_Nil)
  next
    case (Cons c cs)
    show ?thesis
    proof (cases "prefix sep s")
      case True
      have "length (drop (length sep) s) < length s" using Cons assms by simp
      with 1 have "list_all (\<lambda>p. \<not> py_str_in sep p) (pieces sep (drop (length sep) s))"
        by blast
      with assms show ?thesis by (simp add: pieces_match [OF assms True])
    next
      case n: False
      from 1 Cons have ih: "list_all (\<lambda>p. \<not> py_str_in sep p) (pieces sep cs)" by simp
      from pieces_not_Nil [of sep cs] obtain p ps where e: "pieces sep cs = p # ps"
        by (cases "pieces sep cs") auto
      from hd_pieces_prefix [of sep cs] e have "prefix p cs" by simp
      then have pc: "prefix (c # p) (c # cs)" by simp
      have "\<not> prefix sep (c # p)"
      proof
        assume "prefix sep (c # p)"
        from this pc have "prefix sep (c # cs)" by (rule prefix_order.trans)
        with n Cons show False by simp
      qed
      with ih e have "list_all (\<lambda>p. \<not> py_str_in sep p) ((c # p) # ps)" by simp
      with n Cons e show ?thesis by (simp add: pieces_skip [OF assms])
    qed
  qed
qed

text \<open>
  A reply whose only member is a \<^verbatim>\<open>ticket_draft\<close> made of characters that stand for
  themselves in a JSON string (no quote, no backslash, no control character): the draft is
  decoded with the fences removed from it.
\<close>

definition plain :: "char \<Rightarrow> bool" where
  "plain c = (c \<noteq> CHR 0x22 \<and> c \<noteq> CHR 0x5C \<and> 0x20 \<le> (of_char c :: nat))"

lemma scanstring_plain:
  "list_all plain s \<Longrightarrow> scanstring (s @ CHR 0x22 # r) = Some (s, r)"
  by (induction s) (simp_all add: plain_def)

lemma subseq_list_all: "subseq xs ys \<Longrightarrow> list_all P ys \<Longrightarrow> list_all P xs"
  by (induction rule: list_emb.induct) simp_all

lemma draft_reply_decoded:
  assumes "list_all plain s"
  shows "py_json_decode (''{\"ticket_draft\": \"'' @ s @ ''\"}'')
           = Some (JObject [(''ticket_draft'', JString s)])"
proof -
  define rest where "rest = s @ CHR 0x22 # ''}''"
  have b: "scanstring rest = Some (s, ''}'')"
    unfolding rest_def using assms by (rule scanstring_plain)
  have v: "scan_once (CHR 0x22 # rest) = Some (JString s, ''}'')"
    by (subst scan_once.simps) (simp add: b)
  have p: "parse_object (''\"ticket_draft\": \"'' @ rest) = Some ([(''ticket_draft'', JString s)], [])"
    by (subst parse_object.simps) (simp add: skip_ws_def json_ws_def v)
  have o: "scan_once (''{\"ticket_draft\": \"'' @ rest) = Some (JObject [(''ticket_draft'', JString s)], [])"
    using p by (subst scan_once.simps) (simp add: skip_ws_def json_ws_def)
  have "py_json_decode (''{\"ticket_draft\": \"'' @ rest) = Some (JObject [(''ticket_draft'', JString s)])"
    using o by (simp add: py_json_decode_def skip_ws_def json_ws_def)
  then show ?thesis by (simp add: rest_def)
qed

lemma draft_reply_cleaned:
  "cleaned (''{\"ticket_draft\": \"'' @ s @ ''\"}'')
     = ''{\"ticket_draft\": \"'' @ remove_fences s @ ''\"}''"
proof -
  have q: "CHR 0x22 \<notin> set ''```json''" by simp
  have vs: "value_start (CHR ''{'')" and ve: "value_end (CHR ''}'')" by code_simp+
  have sf: "suffix [CHR ''}''] (CHR ''{'' # (''\"ticket_draft\": \"'' @ s @ ''\"}''))"
    by (simp add: suffix_def)
  have n: "list_all json_ws []" by simp
  from n n vs sf ve
  have "py_strip ([] @ (CHR ''{'' # (''\"ticket_draft\": \"'' @ s @ ''\"}'')) @ [])
          = CHR ''{'' # (''\"ticket_draft\": \"'' @ s @ ''\"}'')"
    by (rule py_strip_document)
  then have t: "py_strip (''{\"ticket_draft\": \"'' @ s @ ''\"}'') = ''{\"ticket_draft\": \"'' @ s @ ''\"}''"
    by simp
  have h: "remove_fences ''{\"ticket_draft\": '' = ''{\"ticket_draft\": ''" by code_simp
  have e: "remove_fences ''}'' = ''}''" by code_simp
  have "remove_fences (''{\"ticket_draft\": '' @ CHR 0x22 # (s @ CHR 0x22 # ''}''))
          = remove_fences ''{\"ticket_draft\": '' @ CHR 0x22 # remove_fences (s @ CHR 0x22 # ''}'')"
    by (rule remove_fences_separator [OF q])
  also have "remove_fences (s @ CHR 0x22 # ''}'') = remove_fences s @ CHR 0x22 # remove_fences ''}''"
    by (rule remove_fences_separator [OF q])
  finally have "remove_fences (''{\"ticket_draft\": \"'' @ s @ ''\"}'')
      = ''{\"ticket_draft\": \"'' @ remove_fences s @ ''\"}''"
    unfolding h e by simp
  with t show ?thesis by (simp only: cleaned_remove_fences)
qed

lemma fenced_draft_decoded:
  assumes "list_all plain s"
  shows "py_json_decode (cleaned (''{\"ticket_draft\": \"'' @ s @ ''\"}''))
           = Some (JObject [(''ticket_draft'', JString (remove_fences s))])"
proof -
  from remove_fences_deletes assms have "list_all plain (remove_fences s)"
    by (rule subseq_list_all)
  then show ?thesis unfolding draft_reply_cleaned by (rule draft_reply_decoded)
qed

text \<open>
  Claim C10. For every reply the capability returns, \<^verbatim>\<open>get_ai_analysis\<close> returns what the
  decoder makes of the cleaned text. The cleaned text is obtained from the trimmed reply in two
  steps: the trimmed reply is cut at every occurrence of \<^verbatim>\<open>```json\<close> (joining the pieces with
  \<^verbatim>\<open>```json\<close> gives the trimmed reply back, and no piece contains \<^verbatim>\<open>```json\<close>) and the
  pieces are concatenated; the result is cut at every occurrence of \<^verbatim>\<open>```\<close> in the same way
  and the pieces are concatenated. So everything outside the fences is kept, in order, and the
  cleaned text contains neither \<^verbatim>\<open>```\<close> nor \<^verbatim>\<open>```json\<close>, wherever they stood in the
  reply, inside a JSON string or not. In particular, for a reply whose only member is a
  \<^verbatim>\<open>ticket_draft\<close> of plain characters, the draft returned is the draft of the reply with
  every \<^verbatim>\<open>```json\<close> and then every \<^verbatim>\<open>```\<close> deleted from it.
\<close>

theorem fences_removed_everywhere:
  assumes "generate_content [SYSTEM_PROMPT, prompt] = Returns text"
  shows "get_ai_analysis L (Some generate_content) prompt
           = (case py_json_decode (cleaned text) of
                Some v \<Rightarrow> v
              | None \<Rightarrow> error_dict (''An error occurred: '' @ decode_error L (cleaned text)),
              [[SYSTEM_PROMPT, prompt]])
         \<and> cleaned text = concat (pieces ''```'' (concat (pieces ''```json'' (py_strip text))))
         \<and> joined ''```json'' (pieces ''```json'' (py_strip text)) = py_strip text
         \<and> list_all (\<lambda>p. \<not> py_str_in ''```json'' p) (pieces ''```json'' (py_strip text))
         \<and> joined ''```'' (pieces ''```'' (concat (pieces ''```json'' (py_strip text))))
             = concat (pieces ''```json'' (py_strip text))
         \<and> list_all (\<lambda>p. \<not> py_str_in ''```'' p)
               (pieces ''```'' (concat (pieces ''```json'' (py_strip text))))
         \<and> \<not> py_str_in ''```'' (cleaned text)
         \<and> \<not> py_str_in ''```json'' (cleaned text)
         \<and> (\<forall>s. text = ''{\"ticket_draft\": \"'' @ s @ ''\"}'' \<and> list_all plain s \<longrightarrow>
               get_ai_analysis L (Some generate_content) prompt
                 = (JObject [(''ticket_draft'',
                              JString (concat (pieces ''```'' (concat (pieces ''```json'' s)))))],
                    [[SYSTEM_PROMPT, prompt]]))"
proof -
  have n1: "''```json'' \<noteq> []" and n2: "''```'' \<noteq> []" by simp_all
  have c: "cleaned text = concat (pieces ''```'' (concat (pieces ''```json'' (py_strip text))))"
    unfolding cleaned_def
    by (simp only: replace_concat_pieces [OF n1] replace_concat_pieces [OF n2])
  from assms have g: "get_ai_analysis L (Some generate_content) prompt
           = (case py_json_decode (cleaned text) of
                Some v \<Rightarrow> v
              | None \<Rightarrow> error_dict (''An error occurred: '' @ decode_error L (cleaned text)),
              [[SYSTEM_PROMPT, prompt]])"
    by (rule get_ai_analysis_returned)
  note j1 = joined_pieces [of "''```json''" "py_strip text"]
  note f1 = pieces_free [OF n1, of "py_strip text"]
  note j2 = joined_pieces [of "''```''" "concat (pieces ''```json'' (py_strip text))"]
  note f2 = pieces_free [OF n2, of "concat (pieces ''```json'' (py_strip text))"]
  have e1: "\<not> py_str_in ''```'' (cleaned text)" by (rule cleaned_no_fence)
  have e2: "\<not> py_str_in ''```json'' (cleaned text)" by (rule cleaned_no_json_fence)
  have d: "\<forall>s. text = ''{\"ticket_draft\": \"'' @ s @ ''\"}'' \<and> list_all plain s \<longrightarrow>
               get_ai_analysis L (Some generate_content) prompt
                 = (JObject [(''ticket_draft'',
                              JString (concat (pieces ''```'' (concat (pieces ''```json'' s)))))],
                    [[SYSTEM_PROMPT, prompt]])"
  proof (intro allI impI)
    fix s
    assume h: "text = ''{\"ticket_draft\": \"'' @ s @ ''\"}'' \<and> list_all plain s"
    then have "list_all plain s" by (rule conjunct2)
    then have "py_json_decode (cleaned (''{\"ticket_draft\": \"'' @ s @ ''\"}''))
           = Some (JObject [(''ticket_draft'', JString (remove_fences s))])"
      by (rule fenced_draft_decoded)
    with h have "py_json_decode (cleaned text)
           = Some (JObject [(''ticket_draft'', JString (remove_fences s))])"
      by simp
    with assms have "get_ai_analysis L (Some generate_content) prompt
           = (JObject [(''ticket_draft'', JString (remove_fences s))], [[SYSTEM_PROMPT, prompt]])"
      by (rule get_ai_analysis_decoded)
    then show "get_ai_analysis L (Some generate_content) prompt
                 = (JObject [(''ticket_draft'',
                              JString (concat (pieces ''```'' (concat (pieces ''```json'' s)))))],
                    [[SYSTEM_PROMPT, prompt]])"
      unfolding remove_fences_def
      by (simp only: replace_concat_pieces [OF n1] replace_concat_pieces [OF n2])
  qed
  from g c j1 f1 j2 f2 e1 e2 d show ?thesis by (intro conjI)
qed

text \<open>
  The theorem at a reply whose \<^verbatim>\<open>ticket_draft\<close> contains a fenced block: the value is
  decoded with both fences removed from it.
\<close>

theorem fences_removed_everywhere_witness:
  "get_ai_analysis example_libs
       (Some (\<lambda>parts. Returns ''{\"ticket_draft\": \"Run ```json {} ``` first\"}'')) ''p''
     = (JObject [(''ticket_draft'', JString ''Run  {}  first'')], [[SYSTEM_PROMPT, ''p'']])
   \<and> pieces ''```json'' (py_strip ''{\"ticket_draft\": \"Run ```json {} ``` first\"}'')
       = [''{\"ticket_draft\": \"Run '', '' {} ``` first\"}'']
   \<and> pieces ''```'' (''{\"ticket_draft\": \"Run '' @ '' {} ``` first\"}'')
       = [''{\"ticket_draft\": \"Run  {} '', '' first\"}'']
   \<and> cleaned ''{\"ticket_draft\": \"Run ```json {} ``` first\"}''
       = ''{\"ticket_draft\": \"Run  {}  first\"}''
   \<and> list_all plain ''Run ```json {} ``` first''
   \<and> concat (pieces ''```'' (concat (pieces ''```json'' ''Run ```json {} ``` first'')))
       = ''Run  {}  first''"
proof -
  let ?reply = "''{\"ticket_draft\": \"Run ```json {} ``` first\"}''"
  let ?s = "''Run ```json {} ``` first''"
  let ?gc = "\<lambda>parts :: string list. Returns ?reply"
  have r: "?gc [SYSTEM_PROMPT, ''p''] = Returns ?reply" by simp
  have p1: "pieces ''```json'' (py_strip ?reply) = [''{\"ticket_draft\": \"Run '', '' {} ``` first\"}'']"
    by code_simp
  have p2: "pieces ''```'' (''{\"ticket_draft\": \"Run '' @ '' {} ``` first\"}'')
       = [''{\"ticket_draft\": \"Run  {} '', '' first\"}'']"
    by code_simp
  have d: "py_json_decode ''{\"ticket_draft\": \"Run  {}  first\"}''
             = Some (JObject [(''ticket_draft'', JString ''Run  {}  first'')])"
    by code_simp
  note th = fences_removed_everywhere [OF r, where L = example_libs and prompt = "''p''"]
  from th have "cleaned ?reply = concat (pieces ''```'' (concat (pieces ''```json'' (py_strip ?reply))))"
    by (rule conjunct1 [OF conjunct2])
  then have c: "cleaned ?reply = ''{\"ticket_draft\": \"Run  {}  first\"}''"
    unfolding p1 using p2 by simp
  from th have "get_ai_analysis example_libs (Some ?gc) ''p''
           = (case py_json_decode (cleaned ?reply) of
                Some v \<Rightarrow> v
              | None \<Rightarrow> error_dict (''An error occurred: '' @ decode_error example_libs (cleaned ?reply)),
              [[SYSTEM_PROMPT, ''p'']])"
    by (rule conjunct1)
  then have g: "get_ai_analysis example_libs (Some ?gc) ''p''
     = (JObject [(''ticket_draft'', JString ''Run  {}  first'')], [[SYSTEM_PROMPT, ''p'']])"
    unfolding c d by simp
  have pl: "list_all plain ?s" by code_simp
  have ps: "concat (pieces ''```'' (concat (pieces ''```json'' ?s))) = ''Run  {}  first''"
    by code_simp
  have sh: "?reply = ''{\"ticket_draft\": \"'' @ ?s @ ''\"}''" by simp
  note th9 = conjunct2 [OF conjunct2 [OF conjunct2 [OF conjunct2 [OF conjunct2
      [OF conjunct2 [OF conjunct2 [OF conjunct2 [OF th]]]]]]]]
  from th9 have "?reply = ''{\"ticket_draft\": \"'' @ ?s @ ''\"}'' \<and> list_all plain ?s \<longrightarrow>
      get_ai_analysis example_libs (Some ?gc) ''p''
        = (JObject [(''ticket_draft'',
                     JString (concat (pieces ''```'' (concat (pieces ''```json'' ?s)))))],
           [[SYSTEM_PROMPT, ''p'']])"
    by (rule spec)
  moreover from sh pl have "?reply = ''{\"ticket_draft\": \"'' @ ?s @ ''\"}'' \<and> list_all plain ?s"
    by (rule conjI)
  ultimately have "get_ai_analysis example_libs (Some ?gc) ''p''
        = (JObject [(''ticket_draft'',
                     JString (concat (pieces ''```'' (concat (pieces ''```json'' ?s)))))],
           [[SYSTEM_PROMPT, ''p'']])"
    by (rule mp)
  then have g9: "get_ai_analysis example_libs (Some ?gc) ''p''
     = (JObject [(''ticket_draft'', JString ''Run  {}  first'')], [[SYSTEM_PROMPT, ''p'']])"
    unfolding ps .
  from g9 p1 p2 c pl ps show ?thesis by (intro conjI)
qed

subsection \<open>A reply wrapped in a fence\<close>

lemma json_ws_no_fence_char: "json_ws x \<Longrightarrow> x \<notin> set ''```json''"
  by (auto dest!: json_ws_cases)

lemma remove_fences_ws_prefix:
  "list_all json_ws ws \<Longrightarrow> remove_fences (ws @ b) = ws @ remove_fences b"
proof (induction ws)
  case Nil
  show ?case by simp
next
  case (Cons w ws)
  from Cons.prems have "json_ws w" by simp
  then have "w \<notin> set ''```json''" by (rule json_ws_no_fence_char)
  from remove_fences_separator [OF this, of "[]" "ws @ b"] Cons show ?case
    by (simp add: remove_fences_Nil)
qed

lemma remove_fences_ws_suffix:
  "list_all json_ws ws \<Longrightarrow> remove_fences (a @ ws) = remove_fences a @ ws"
proof (cases ws)
  case Nil
  then show ?thesis by simp
next
  case (Cons w ws')
  assume a: "list_all json_ws ws"
  with Cons have "json_ws w" and r: "list_all json_ws ws'" by simp_all
  from this(1) have w: "w \<notin> set ''```json''" by (rule json_ws_no_fence_char)
  from remove_fences_ws_prefix [OF r, of "[]"] have "remove_fences ws' = ws'"
    by (simp add: remove_fences_Nil)
  with remove_fences_separator [OF w, of a ws'] Cons show ?thesis by simp
qed

lemma no_backtick_no_fence: "CHR 0x60 \<notin> set s \<Longrightarrow> \<not> py_str_in ''```'' s"
  by (induction s) auto

lemma no_backtick_no_json_fence: "CHR 0x60 \<notin> set s \<Longrightarrow> \<not> py_str_in ''```json'' s"
  by (induction s) auto

text \<open>
  What the two replacements leave of a language tag that follows the opening fence: the tag
  without a leading \<^verbatim>\<open>json\<close>.
\<close>

definition tag_rest :: "string \<Rightarrow> string" where
  "tag_rest tag = (if prefix ''json'' tag then drop 4 tag else tag)"

lemma remove_fences_opening:
  assumes "CHR 0x60 \<notin> set tag"
  shows "remove_fences (''```'' @ tag) = tag_rest tag"
proof (cases "prefix ''json'' tag")
  case True
  then have p: "prefix ''```json'' (''```'' @ tag)" by simp
  from assms have n: "CHR 0x60 \<notin> set (drop 4 tag)" by (auto dest: in_set_dropD)
  have m: "py_replace ''```json'' [] (''```'' @ tag)
             = [] @ py_replace ''```json'' [] (drop (length ''```json'') (''```'' @ tag))"
    by (rule py_replace_match [OF _ p]) simp
  have d: "drop (length ''```json'') (''```'' @ tag) = drop 4 tag"
    by (simp add: eval_nat_numeral)
  have "py_replace ''```json'' [] (''```'' @ tag) = py_replace ''```json'' [] (drop 4 tag)"
    unfolding m d by simp
  also have "\<dots> = drop 4 tag"
    by (rule py_replace_absent [OF _ no_backtick_no_json_fence [OF n]]) simp
  finally have "remove_fences (''```'' @ tag) = py_replace ''```'' [] (drop 4 tag)"
    by (simp add: remove_fences_def)
  also have "\<dots> = drop 4 tag"
    by (rule py_replace_absent [OF _ no_backtick_no_fence [OF n]]) simp
  finally show ?thesis using True by (simp add: tag_rest_def)
next
  case False
  from assms have t: "\<not> py_str_in ''```json'' tag" by (rule no_backtick_no_json_fence)
  from assms have h: "tag = [] \<or> hd tag \<noteq> CHR 0x60" by (cases tag) auto
  have "\<not> py_str_in ''```json'' (''```'' @ tag)"
    using False t h by (cases tag) auto
  then have "py_replace ''```json'' [] (''```'' @ tag) = ''```'' @ tag"
    by (intro py_replace_absent) simp_all
  then have "remove_fences (''```'' @ tag) = py_replace ''```'' [] (''```'' @ tag)"
    by (simp add: remove_fences_def)
  also have "\<dots> = py_replace ''```'' [] tag"
    using py_replace_match [of "''```''" "''```'' @ tag" "[]"] by simp
  also have "\<dots> = tag"
    by (rule py_replace_absent [OF _ no_backtick_no_fence [OF assms]]) simp
  finally show ?thesis using False by (simp add: tag_rest_def)
qed

lemma cleaned_fenced:
  assumes "py_strip text = ''```'' @ tag @ sep1 @ body @ sep2 @ ''```''"
    and "CHR 0x60 \<notin> set tag"
    and "list_all json_ws sep1" and "list_all json_ws sep2"
    and "body = ''{'' @ mid @ ''}''"
  shows "cleaned text = tag_rest tag @ sep1 @ remove_fences body @ sep2"
proof -
  have o: "CHR ''{'' \<notin> set ''```json''" and c: "CHR ''}'' \<notin> set ''```json''" by simp_all
  have b: "remove_fences body = ''{'' @ remove_fences mid @ ''}''"
    unfolding assms(5)
    using remove_fences_separator [OF o, of "[]" "mid @ ''}''"]
      remove_fences_separator [OF c, of mid "[]"]
    by (simp add: remove_fences_Nil)
  have "remove_fences ((''```'' @ tag @ sep1) @ CHR ''{'' # (mid @ CHR ''}'' # (sep2 @ ''```'')))
          = remove_fences (''```'' @ tag @ sep1) @ CHR ''{'' # remove_fences (mid @ CHR ''}'' # (sep2 @ ''```''))"
    by (rule remove_fences_separator [OF o])
  also have "remove_fences (mid @ CHR ''}'' # (sep2 @ ''```''))
          = remove_fences mid @ CHR ''}'' # remove_fences (sep2 @ ''```'')"
    by (rule remove_fences_separator [OF c])
  also have "remove_fences (sep2 @ ''```'') = sep2"
    by (simp only: remove_fences_ws_prefix [OF assms(4)] remove_fences_fence append_Nil2)
  also have "remove_fences (''```'' @ tag @ sep1) = tag_rest tag @ sep1"
    using remove_fences_ws_suffix [OF assms(3), of "''```'' @ tag"]
      remove_fences_opening [OF assms(2)] by simp
  finally have f: "remove_fences ((''```'' @ tag @ sep1) @ CHR ''{'' # (mid @ CHR ''}'' # (sep2 @ ''```'')))
          = (tag_rest tag @ sep1) @ CHR ''{'' # (remove_fences mid @ CHR ''}'' # sep2)" .
  have x: "py_strip text = (''```'' @ tag @ sep1) @ CHR ''{'' # (mid @ CHR ''}'' # (sep2 @ ''```''))"
    using assms(1,5) by simp
  have y: "tag_rest tag @ sep1 @ remove_fences body @ sep2
             = (tag_rest tag @ sep1) @ CHR ''{'' # (remove_fences mid @ CHR ''}'' # sep2)"
    using b by simp
  show ?thesis unfolding cleaned_remove_fences x y by (rule f)
qed

text \<open>
  Claim C4, as amended. Let the trimmed reply consist of an opening fence \<^verbatim>\<open>```\<close>, a
  language tag without a backtick (possibly empty), JSON white space \<open>sep1\<close> (possibly
  empty), a body in braces, JSON white space \<open>sep2\<close> (possibly empty) and a closing fence. The
  text given to the decoder is the tag without a leading \<^verbatim>\<open>json\<close>, then \<open>sep1\<close>, the body
  with any fence inside it removed (the body itself when it contains none) and \<open>sep2\<close>.
  With no tag or the tag \<^verbatim>\<open>json\<close>, the result is what the decoder makes of that body: the
  decoded value when it decodes, the error dictionary otherwise. When something of the tag
  remains and begins with a character that is neither white space nor the start of a JSON
  document, the result is the error dictionary.
\<close>

theorem fenced_reply_parsed:
  assumes "py_strip text = ''```'' @ tag @ sep1 @ body @ sep2 @ ''```''"
    and "CHR 0x60 \<notin> set tag"
    and "list_all json_ws sep1" and "list_all json_ws sep2"
    and "body = ''{'' @ mid @ ''}''"
    and "generate_content [SYSTEM_PROMPT, prompt] = Returns text"
  shows "cleaned text = tag_rest tag @ sep1 @ remove_fences body @ sep2
         \<and> (\<not> py_str_in ''```'' body \<longrightarrow> remove_fences body = body)
         \<and> (tag = [] \<or> tag = ''json'' \<longrightarrow>
              get_ai_analysis L (Some generate_content) prompt
                = (case py_json_decode (remove_fences body) of
                     Some v \<Rightarrow> v
                   | None \<Rightarrow> error_dict (''An error occurred: ''
                                @ decode_error L (sep1 @ remove_fences body @ sep2)),
                   [[SYSTEM_PROMPT, prompt]]))
         \<and> (tag_rest tag \<noteq> [] \<and> \<not> json_ws (hd (tag_rest tag)) \<and> \<not> value_start (hd (tag_rest tag)) \<longrightarrow>
              get_ai_analysis L (Some generate_content) prompt
                = (error_dict (''An error occurred: '' @ decode_error L (cleaned text)),
                   [[SYSTEM_PROMPT, prompt]]))"
proof -
  from assms(1-5) have c: "cleaned text = tag_rest tag @ sep1 @ remove_fences body @ sep2"
    by (rule cleaned_fenced)
  from assms(6) have g: "get_ai_analysis L (Some generate_content) prompt
           = (case py_json_decode (cleaned text) of
                Some v \<Rightarrow> v
              | None \<Rightarrow> error_dict (''An error occurred: '' @ decode_error L (cleaned text)),
              [[SYSTEM_PROMPT, prompt]])"
    by (rule get_ai_analysis_returned)
  have f: "\<not> py_str_in ''```'' body \<longrightarrow> remove_fences body = body"
    unfolding remove_fences_def using fence_free_replace by blast
  have a: "tag = [] \<or> tag = ''json'' \<longrightarrow>
              get_ai_analysis L (Some generate_content) prompt
                = (case py_json_decode (remove_fences body) of
                     Some v \<Rightarrow> v
                   | None \<Rightarrow> error_dict (''An error occurred: ''
                                @ decode_error L (sep1 @ remove_fences body @ sep2)),
                   [[SYSTEM_PROMPT, prompt]])"
  proof
    assume "tag = [] \<or> tag = ''json''"
    then have "tag_rest tag = []" by (auto simp: tag_rest_def)
    with c have c': "cleaned text = sep1 @ remove_fences body @ sep2" by simp
    from assms(3,4)
    have d: "py_json_decode (sep1 @ remove_fences body @ sep2) = py_json_decode (remove_fences body)"
      by (rule py_json_decode_surrounded)
    show "get_ai_analysis L (Some generate_content) prompt
                = (case py_json_decode (remove_fences body) of
                     Some v \<Rightarrow> v
                   | None \<Rightarrow> error_dict (''An error occurred: ''
                                @ decode_error L (sep1 @ remove_fences body @ sep2)),
                   [[SYSTEM_PROMPT, prompt]])"
      using g unfolding c' d .
  qed
  have b: "tag_rest tag \<noteq> [] \<and> \<not> json_ws (hd (tag_rest tag)) \<and> \<not> value_start (hd (tag_rest tag)) \<longrightarrow>
              get_ai_analysis L (Some generate_content) prompt
                = (error_dict (''An error occurred: '' @ decode_error L (cleaned text)),
                   [[SYSTEM_PROMPT, prompt]])"
  proof
    assume h: "tag_rest tag \<noteq> [] \<and> \<not> json_ws (hd (tag_rest tag)) \<and> \<not> value_start (hd (tag_rest tag))"
    then obtain x xs where e: "tag_rest tag = x # xs" by (cases "tag_rest tag") auto
    with h have "\<not> json_ws x" and "\<not> value_start x" by simp_all
    then have "py_json_decode (x # (xs @ sep1 @ remove_fences body @ sep2)) = None"
      by (rule py_json_decode_no_value)
    with c e have "py_json_decode (cleaned text) = None" by simp
    with g show "get_ai_analysis L (Some generate_content) prompt
                = (error_dict (''An error occurred: '' @ decode_error L (cleaned text)),
                   [[SYSTEM_PROMPT, prompt]])" by simp
  qed
  from c f a b show ?thesis by (intro conjI)
qed

text \<open>
  The theorem at Scenario B, and at a reply with the tag \<^verbatim>\<open>javascript\<close>, lines ended by a
  carriage return and a line feed, and a line feed after the closing fence.
\<close>

theorem fenced_reply_parsed_witness:
  "py_strip ''```json\<newline>{\"ticket_draft\":\"x\",\"clarifying_questions\":[\"Q1?\"],\"open_questions\":[]}\<newline>```''
     = ''```'' @ ''json'' @ ''\<newline>''
       @ ''{\"ticket_draft\":\"x\",\"clarifying_questions\":[\"Q1?\"],\"open_questions\":[]}''
       @ ''\<newline>'' @ ''```''
   \<and> CHR 0x60 \<notin> set ''json''
   \<and> list_all json_ws ''\<newline>''
   \<and> get_ai_analysis example_libs
         (Some (\<lambda>parts. Returns ''```json\<newline>{\"ticket_draft\":\"x\",\"clarifying_questions\":[\"Q1?\"],\"open_questions\":[]}\<newline>```''))
         ''User Story: As a user, I want password reset\<newline>\<newline>Context/Brain Dump:\<newline>''
       = (JObject [(''ticket_draft'', JString ''x''),
                   (''clarifying_questions'', JArray [JString ''Q1?'']),
                   (''open_questions'', JArray [])],
          [[SYSTEM_PROMPT, ''User Story: As a user, I want password reset\<newline>\<newline>Context/Brain Dump:\<newline>'']])
   \<and> py_strip (''```javascript'' @ [CHR 0x0D, CHR 0x0A] @ ''{\"ticket_draft\":\"x\"}'' @ [CHR 0x0D, CHR 0x0A] @ ''```\<newline>'')
       = ''```'' @ ''javascript'' @ [CHR 0x0D, CHR 0x0A] @ ''{\"ticket_draft\":\"x\"}'' @ [CHR 0x0D, CHR 0x0A] @ ''```''
   \<and> CHR 0x60 \<notin> set ''javascript''
   \<and> list_all json_ws [CHR 0x0D, CHR 0x0A]
   \<and> tag_rest ''javascript'' = ''javascript''
   \<and> \<not> json_ws (CHR ''j'') \<and> \<not> value_start (CHR ''j'')
   \<and> cleaned (''```javascript'' @ [CHR 0x0D, CHR 0x0A] @ ''{\"ticket_draft\":\"x\"}'' @ [CHR 0x0D, CHR 0x0A] @ ''```\<newline>'')
       = ''javascript'' @ [CHR 0x0D, CHR 0x0A] @ ''{\"ticket_draft\":\"x\"}'' @ [CHR 0x0D, CHR 0x0A]
   \<and> get_ai_analysis example_libs
         (Some (\<lambda>parts. Returns (''```javascript'' @ [CHR 0x0D, CHR 0x0A] @ ''{\"ticket_draft\":\"x\"}'' @ [CHR 0x0D, CHR 0x0A] @ ''```\<newline>'')))
         ''p''
       = (JObject [(''error'', JString ''An error occurred: Expecting value'')], [[SYSTEM_PROMPT, ''p'']])"
proof -
  let ?mid = "''\"ticket_draft\":\"x\",\"clarifying_questions\":[\"Q1?\"],\"open_questions\":[]''"
  let ?body = "''{\"ticket_draft\":\"x\",\"clarifying_questions\":[\"Q1?\"],\"open_questions\":[]}''"
  let ?reply = "''```json\<newline>{\"ticket_draft\":\"x\",\"clarifying_questions\":[\"Q1?\"],\"open_questions\":[]}\<newline>```''"
  let ?gc = "\<lambda>parts :: string list. Returns ?reply"
  let ?p = "''User Story: As a user, I want password reset\<newline>\<newline>Context/Brain Dump:\<newline>''"
  let ?v = "JObject [(''ticket_draft'', JString ''x''),
                   (''clarifying_questions'', JArray [JString ''Q1?'']),
                   (''open_questions'', JArray [])]"
  have a1: "py_strip ?reply = ''```'' @ ''json'' @ ''\<newline>'' @ ?body @ ''\<newline>'' @ ''```''" by code_simp
  have a2: "CHR 0x60 \<notin> set ''json''" by simp
  have a3: "list_all json_ws ''\<newline>''" by code_simp
  have a5: "?body = ''{'' @ ?mid @ ''}''" by simp
  have a6: "?gc [SYSTEM_PROMPT, ?p] = Returns ?reply" by simp
  have d: "py_json_decode (remove_fences ?body) = Some ?v" by code_simp
  note th = fenced_reply_parsed [OF a1 a2 a3 a3 a5 a6, where L = example_libs]
  note th3 = conjunct1 [OF conjunct2 [OF conjunct2 [OF th]]]
  from th3 have "get_ai_analysis example_libs (Some ?gc) ?p
                = (case py_json_decode (remove_fences ?body) of
                     Some v \<Rightarrow> v
                   | None \<Rightarrow> error_dict (''An error occurred: ''
                                @ decode_error example_libs (''\<newline>'' @ remove_fences ?body @ ''\<newline>'')),
                   [[SYSTEM_PROMPT, ?p]])"
    by simp
  then have g: "get_ai_analysis example_libs (Some ?gc) ?p = (?v, [[SYSTEM_PROMPT, ?p]])"
    unfolding d by simp
  let ?crlf = "[CHR 0x0D, CHR 0x0A]"
  let ?body2 = "''{\"ticket_draft\":\"x\"}''"
  let ?reply2 = "''```javascript'' @ ?crlf @ ?body2 @ ?crlf @ ''```\<newline>''"
  let ?gc2 = "\<lambda>parts :: string list. Returns ?reply2"
  have b1: "py_strip ?reply2 = ''```'' @ ''javascript'' @ ?crlf @ ?body2 @ ?crlf @ ''```''" by code_simp
  have b2: "CHR 0x60 \<notin> set ''javascript''" by simp
  have b3: "list_all json_ws ?crlf" by code_simp
  have b5: "?body2 = ''{'' @ ''\"ticket_draft\":\"x\"'' @ ''}''" by simp
  have b6: "?gc2 [SYSTEM_PROMPT, ''p''] = Returns ?reply2" by simp
  have b7: "tag_rest ''javascript'' = ''javascript''" by code_simp
  have b8: "\<not> json_ws (CHR ''j'')" by code_simp
  have b9: "\<not> value_start (CHR ''j'')" by code_simp
  have r: "remove_fences ?body2 = ?body2" by code_simp
  note tj = fenced_reply_parsed [OF b1 b2 b3 b3 b5 b6, where L = example_libs]
  from conjunct1 [OF tj] have c2: "cleaned ?reply2 = ''javascript'' @ ?crlf @ ?body2 @ ?crlf"
    unfolding b7 r .
  note tj4 = conjunct2 [OF conjunct2 [OF conjunct2 [OF tj]]]
  from tj4 b7 b8 b9 have "get_ai_analysis example_libs (Some ?gc2) ''p''
                = (error_dict (''An error occurred: '' @ decode_error example_libs (cleaned ?reply2)),
                   [[SYSTEM_PROMPT, ''p'']])"
    by simp
  then have g2: "get_ai_analysis example_libs (Some ?gc2) ''p''
       = (JObject [(''error'', JString ''An error occurred: Expecting value'')], [[SYSTEM_PROMPT, ''p'']])"
    by (simp add: error_dict_def example_libs_def)
  from a1 a2 a3 g b1 b2 b3 b7 b8 b9 c2 g2 show ?thesis by (intro conjI)
qed
text \<open>
  Claim C4 as stated fails for a language tag other than \<^verbatim>\<open>json\<close>: with the tag
  \<^verbatim>\<open>JSON\<close> the tag stays in the cleaned text, the decoder refuses it and the result is the
  error dictionary, although the body alone decodes.
\<close>

theorem other_language_tag_refused:
  "py_json_decode ''{\"ticket_draft\":\"x\"}'' = Some (JObject [(''ticket_draft'', JString ''x'')])
   \<and> cleaned ''```JSON\<newline>{\"ticket_draft\":\"x\"}\<newline>```'' = ''JSON\<newline>{\"ticket_draft\":\"x\"}\<newline>''
   \<and> py_json_decode (cleaned ''```JSON\<newline>{\"ticket_draft\":\"x\"}\<newline>```'') = None
   \<and> fst (get_ai_analysis example_libs
            (Some (\<lambda>parts. Returns ''```JSON\<newline>{\"ticket_draft\":\"x\"}\<newline>```'')) ''p'')
       = JObject [(''error'', JString ''An error occurred: Expecting value'')]"
  by code_simp

end
